theory Spec2Isabelle
  imports Main "HOL-Library.Sublist"
begin

section \<open>Strings of the host language\<close>

text \<open>
  Strings are lists of 8-bit characters. The source works on UTF-16 code units; the two
  line terminators beyond Latin-1 (U+2028, U+2029) are therefore not representable here,
  and a character is a line terminator when it is a line feed or a carriage return.
\<close>

definition is_line_terminator :: "char \<Rightarrow> bool" where
  "is_line_terminator c \<longleftrightarrow> c = CHR 0x0A \<or> c = CHR 0x0D"

definition is_digit :: "char \<Rightarrow> bool" where
  "is_digit c \<longleftrightarrow> c \<in> set ''0123456789''"

text \<open>\<open>String.prototype.split\<close> with a string separator: the occurrences of the
  separator are found from left to right, without overlap; an empty separator splits
  into single code units.\<close>

function split_from :: "string \<Rightarrow> string \<Rightarrow> string \<Rightarrow> string list" where
  "split_from sep cur s =
     (if s = [] then [cur]
      else if sep \<noteq> [] \<and> prefix sep s then cur # split_from sep [] (drop (length sep) s)
      else split_from sep (cur @ [hd s]) (tl s))"
  by pat_completeness auto
termination
  by (relation "measure (\<lambda>(sep, cur, s). length s)") auto

declare split_from.simps [simp del]

definition js_split :: "string \<Rightarrow> string \<Rightarrow> string list" where
  "js_split sep s = (if sep = [] then map (\<lambda>c. [c]) s else split_from sep [] s)"

text \<open>\<open>Array.prototype.join\<close>.\<close>

fun js_join :: "string \<Rightarrow> string list \<Rightarrow> string" where
  "js_join sep [] = []"
| "js_join sep [x] = x"
| "js_join sep (x # y # ys) = x @ sep @ js_join sep (y # ys)"

text \<open>\<open>Array.prototype.slice(begin, end)\<close>: a negative index counts from the end, and
  both indices are clamped to the array, so that no index is out of range.\<close>

definition js_slice :: "'a list \<Rightarrow> int \<Rightarrow> int \<Rightarrow> 'a list" where
  "js_slice xs b e =
     (let len = int (length xs);
          k = (if b < 0 then max (len + b) 0 else min b len);
          final = (if e < 0 then max (len + e) 0 else min e len)
      in take (nat (final - k)) (drop (nat k) xs))"

text \<open>\<open>parseInt(s, 10)\<close> on a capture of \<open>\d+\<close>: the value of the leading decimal
  digits, as a natural number. The source's number is a double: it is this value up to
  \<open>2^53\<close> and the double next to it beyond (an infinite one from some 309 digits on),
  which is no less than \<open>2^53\<close>, more than the line count of any file. A number is 0 in
  the source exactly when it is 0 here.\<close>

definition parseInt10 :: "string \<Rightarrow> nat" where
  "parseInt10 s = foldl (\<lambda>a c. 10 * a + (of_char c - 48)) 0 (takeWhile is_digit s)"

section \<open>The line extractor\<close>

text \<open>
  \<open>extractLines(content, fromLine, hasDash, toLine, preserveTrailingNewline)\<close> of
  \<open>src/index.ts\<close>. The host's line separator \<open>EOL\<close> is a parameter. An absent
  number is \<open>None\<close>; the tests \<open>fromLine || 1\<close> and \<open>if (toLine)\<close> take the number
  \<open>0\<close> like an absent one.
\<close>

definition start_line :: "nat option \<Rightarrow> nat" where
  "start_line fromLine = (case fromLine of None \<Rightarrow> 1 | Some n \<Rightarrow> if n = 0 then 1 else n)"

definition end_line :: "string list \<Rightarrow> nat \<Rightarrow> bool \<Rightarrow> nat option \<Rightarrow> bool \<Rightarrow> int" where
  "end_line lines start hasDash toLine preserveTrailingNewline =
     (if \<not> hasDash then int start
      else if toLine \<noteq> None \<and> toLine \<noteq> Some 0 then int (the toLine)
      else if (lines \<noteq> [] \<and> last lines = []) \<and> \<not> preserveTrailingNewline
           then int (length lines) - 1
      else int (length lines))"

definition selected_lines ::
  "string \<Rightarrow> string \<Rightarrow> nat option \<Rightarrow> bool \<Rightarrow> nat option \<Rightarrow> bool \<Rightarrow> string list" where
  "selected_lines eol content fromLine hasDash toLine preserveTrailingNewline =
     (let lines = js_split eol content;
          start = start_line fromLine;
          end = end_line lines start hasDash toLine preserveTrailingNewline
      in js_slice lines (int start - 1) end)"

definition extractLines ::
  "string \<Rightarrow> string \<Rightarrow> nat option \<Rightarrow> bool \<Rightarrow> nat option \<Rightarrow> bool \<Rightarrow> string" where
  "extractLines eol content fromLine hasDash toLine preserveTrailingNewline =
     js_join [CHR 0x0A] (selected_lines eol content fromLine hasDash toLine preserveTrailingNewline)"

text \<open>The number of blank lines at the end of a sequence of lines.\<close>

definition trailing_blank_lines :: "string list \<Rightarrow> nat" where
  "trailing_blank_lines ls = length (takeWhile (\<lambda>l. l = []) (rev ls))"

section \<open>Regular expressions\<close>

text \<open>
  The fragment of ECMAScript regular expressions that the annotation pattern uses, with
  the backtracking semantics of the language: a matcher takes the rest of the input, the
  captures so far and a continuation, and alternatives are tried in priority order
  (a greedy quantifier tries to consume first, a lazy one tries the continuation first).
\<close>

datatype cclass = Dot | Digit | Lit char

fun cclass_ok :: "cclass \<Rightarrow> char \<Rightarrow> bool" where
  "cclass_ok Dot c = (\<not> is_line_terminator c)"
| "cclass_ok Digit c = is_digit c"
| "cclass_ok (Lit x) c = (c = x)"

datatype regex =
    Atom cclass
  | Seq regex regex
  | Opt regex
  | PlusGreedy cclass
  | PlusLazy cclass
  | Group string regex
  | EndAnchor

type_synonym captures = "string \<rightharpoonup> string"

fun rmatch ::
  "regex \<Rightarrow> string \<Rightarrow> captures \<Rightarrow> (string \<Rightarrow> captures \<Rightarrow> captures option) \<Rightarrow> captures option" where
  "rmatch (Atom a) s caps k =
     (case s of [] \<Rightarrow> None | c # cs \<Rightarrow> if cclass_ok a c then k cs caps else None)"
| "rmatch (Seq r1 r2) s caps k = rmatch r1 s caps (\<lambda>s' caps'. rmatch r2 s' caps' k)"
| "rmatch (Opt r) s caps k =
     (case rmatch r s caps k of Some res \<Rightarrow> Some res | None \<Rightarrow> k s caps)"
| "rmatch (PlusGreedy a) s caps k =
     (case s of [] \<Rightarrow> None
      | c # cs \<Rightarrow>
          if cclass_ok a c
          then (case rmatch (PlusGreedy a) cs caps k of Some res \<Rightarrow> Some res | None \<Rightarrow> k cs caps)
          else None)"
| "rmatch (PlusLazy a) s caps k =
     (case s of [] \<Rightarrow> None
      | c # cs \<Rightarrow>
          if cclass_ok a c
          then (case k cs caps of Some res \<Rightarrow> Some res | None \<Rightarrow> rmatch (PlusLazy a) cs caps k)
          else None)"
| "rmatch (Group n r) s caps k =
     rmatch r s caps (\<lambda>s' caps'. k s' (caps'(n \<mapsto> take (length s - length s') s)))"
| "rmatch EndAnchor s caps k = (if s = [] then k s caps else None)"

fun lits :: "string \<Rightarrow> regex \<Rightarrow> regex" where
  "lits [] r = r"
| "lits (c # cs) r = Seq (Atom (Lit c)) (lits cs r)"

text \<open>
  The part of the annotation pattern after the path,
  \<^verbatim>\<open>(?:(?:#(?:L(?<from>\d+)(?<dash>-)?)?)(?:L(?<to>\d+))?)?$\<close>,
  and the whole pattern,
  \<^verbatim>\<open>^file=(?<path>.+?)(?:(?:#(?:L(?<from>\d+)(?<dash>-)?)?)(?:L(?<to>\d+))?)?$\<close>.
  The pattern begins with \<open>^\<close> and has no flags, so \<open>exec\<close> can only match at the first
  position of the input.
\<close>

definition re_to :: regex where
  "re_to = Opt (Seq (Atom (Lit CHR ''L'')) (Group ''to'' (PlusGreedy Digit)))"

definition re_dash :: regex where
  "re_dash = Opt (Group ''dash'' (Atom (Lit CHR ''-'')))"

definition re_from :: regex where
  "re_from = Opt (Seq (Atom (Lit CHR ''L'')) (Seq (Group ''from'' (PlusGreedy Digit)) re_dash))"

definition re_tail :: regex where
  "re_tail = Seq (Opt (Seq (Seq (Atom (Lit CHR ''#'')) re_from) re_to)) EndAnchor"

definition re_fileMeta :: regex where
  "re_fileMeta = lits ''file='' (Seq (Group ''path'' (PlusLazy Dot)) re_tail)"

definition exec_fileMeta :: "string \<Rightarrow> captures option" where
  "exec_fileMeta s = rmatch re_fileMeta s Map.empty (\<lambda>s' caps. Some caps)"

subsection \<open>The annotation pattern in closed form\<close>

text \<open>
  The strings that the part after the path matches, with the captures \<open>from\<close>,
  \<open>dash\<close> and \<open>to\<close>, written as functions on the input; \<open>split_ref\<close> is the lazy
  search for the shortest path whose rest matches. They are proved equal to the matcher
  on the pattern, and the properties of the parser are derived from them.
\<close>

definition set_opt :: "captures \<Rightarrow> string \<Rightarrow> string option \<Rightarrow> captures" where
  "set_opt caps n v = (case v of None \<Rightarrow> caps | Some x \<Rightarrow> caps(n \<mapsto> x))"

definition to_part :: "string \<Rightarrow> string option option" where
  "to_part s =
     (case s of [] \<Rightarrow> Some None
      | c # r \<Rightarrow> if c = CHR ''L'' \<and> r \<noteq> [] \<and> list_all is_digit r then Some (Some r) else None)"

definition dash_to :: "string \<Rightarrow> (string option \<times> string option) option" where
  "dash_to s =
     (case s of [] \<Rightarrow> Some (None, None)
      | c # r \<Rightarrow> if c = CHR ''-'' then map_option (Pair (Some ''-'')) (to_part r)
                 else map_option (Pair None) (to_part s))"

definition tail_groups :: "string \<Rightarrow> (string option \<times> string option \<times> string option) option" where
  "tail_groups t =
     (case t of [] \<Rightarrow> Some (None, None, None)
      | c # r \<Rightarrow>
          if c \<noteq> CHR ''#'' then None
          else (case r of [] \<Rightarrow> Some (None, None, None)
                | c1 # r1 \<Rightarrow>
                    if c1 = CHR ''L'' \<and> r1 \<noteq> [] \<and> is_digit (hd r1)
                    then map_option (Pair (Some (takeWhile is_digit r1))) (dash_to (dropWhile is_digit r1))
                    else None))"

fun split_ref ::
  "string \<Rightarrow> string \<Rightarrow> (string \<times> string option \<times> string option \<times> string option) option" where
  "split_ref acc [] = None"
| "split_ref acc (c # cs) =
     (if is_line_terminator c then None
      else (case tail_groups cs of
              Some g \<Rightarrow> Some (acc @ [c], g)
            | None \<Rightarrow> split_ref (acc @ [c]) cs))"

text \<open>A text has a section when one of its proper suffixes matches the part after the
  path (the pattern then ends the path before the end of the text).\<close>

definition has_section :: "string \<Rightarrow> bool" where
  "has_section s \<longleftrightarrow> list_ex (\<lambda>k. tail_groups (drop k s) \<noteq> None) [1..<length s]"

definition caps_of ::
  "captures \<Rightarrow> string \<times> string option \<times> string option \<times> string option \<Rightarrow> captures" where
  "caps_of caps r =
     (case r of (p, f, d, t) \<Rightarrow>
        set_opt (set_opt (set_opt (caps(''path'' \<mapsto> p)) ''from'' f) ''dash'' d) ''to'' t)"

definition k_end :: "string \<Rightarrow> captures \<Rightarrow> captures option" where
  "k_end = (\<lambda>s caps. rmatch EndAnchor s caps (\<lambda>s' caps'. Some caps'))"

definition k_to :: "string \<Rightarrow> captures \<Rightarrow> captures option" where
  "k_to = (\<lambda>s caps. rmatch re_to s caps k_end)"

definition k_dash :: "string \<Rightarrow> captures \<Rightarrow> captures option" where
  "k_dash = (\<lambda>s caps. rmatch re_dash s caps k_to)"

section \<open>The reference parser\<close>

datatype error =
    RootDirNotAbsolute
  | NotAVFile
  | UnableToParse string
  | OutsideRoot string string
  | FileAccess string

record parsed_reference =
  filePath :: string
  fromLine :: "nat option"
  hasDash :: bool
  toLine :: "nat option"

text \<open>Lines 68 to 80 of \<open>src/index.ts\<close>: a capture that did not take part in the match
  is \<open>undefined\<close>, and so is falsy, like the empty string.\<close>

definition truthy :: "string option \<Rightarrow> bool" where
  "truthy g \<longleftrightarrow> g \<noteq> None \<and> g \<noteq> Some []"

definition parse_fileMeta :: "string \<Rightarrow> error + parsed_reference" where
  "parse_fileMeta fileMeta =
     (case exec_fileMeta fileMeta of
        None \<Rightarrow> Inl (UnableToParse fileMeta)
      | Some groups \<Rightarrow>
          if \<not> truthy (groups ''path'') then Inl (UnableToParse fileMeta)
          else
            let fromL = (if truthy (groups ''from'') then Some (parseInt10 (the (groups ''from''))) else None);
                dash = (truthy (groups ''dash'') \<or> fromL = None);
                toL = (if truthy (groups ''to'') then Some (parseInt10 (the (groups ''to''))) else None)
            in Inr \<lparr>filePath = the (groups ''path''), fromLine = fromL, hasDash = dash, toLine = toL\<rparr>)"

section \<open>Locating the annotation in a code block\<close>

text \<open>
  \<open>meta.split(/(?<!\\) /g)\<close>: the metadata is split at every space that does not follow
  a backslash; at the first position nothing precedes, and the look-behind holds.
\<close>

fun split_unescaped :: "char option \<Rightarrow> string \<Rightarrow> string \<Rightarrow> string list" where
  "split_unescaped prev cur [] = [cur]"
| "split_unescaped prev cur (c # cs) =
     (if c = CHR '' '' \<and> prev \<noteq> Some (CHR 0x5C) then cur # split_unescaped (Some c) [] cs
      else split_unescaped (Some c) (cur @ [c]) cs)"

text \<open>\<open>(node.meta || '').split(...).find((meta) => meta.startsWith('file='))\<close>.\<close>

definition meta_tokens :: "string option \<Rightarrow> string list" where
  "meta_tokens meta = split_unescaped None [] (case meta of None \<Rightarrow> [] | Some m \<Rightarrow> m)"

definition find_fileMeta :: "string option \<Rightarrow> string option" where
  "find_fileMeta meta = List.find (prefix ''file='') (meta_tokens meta)"

section \<open>Paths\<close>

text \<open>
  Modelled from the spec: \<open>path.isAbsolute\<close>, \<open>path.resolve\<close> and \<open>path.relative\<close>
  are functions of the host's path library, absent from the repository. The spec has the
  resolver "resolve the path relative to the document's own directory into an absolute
  path" and "compute the relative path from the configured root directory to the resolved
  absolute path", which may start "with a parent-directory traversal segment". The
  definitions follow the POSIX flavour of the library (separator \<open>/\<close>): a path is
  resolved from its rightmost absolute argument, the working directory being the last
  resort; empty and \<open>.\<close> segments are dropped and a \<open>..\<close> segment removes the segment
  before it (none at the root). The working directory is an absolute path. The relative
  path resolves both ends; it climbs by one \<open>..\<close> for every segment of the start
  beyond the common prefix and then descends along the rest of the target, so it is
  empty when both ends resolve to the same path. A segment of a resolved path is good:
  not empty, not \<open>.\<close>, not \<open>..\<close>, and without separator.
\<close>

definition good_seg :: "string \<Rightarrow> bool" where
  "good_seg s \<longleftrightarrow> s \<noteq> [] \<and> s \<noteq> ''.'' \<and> s \<noteq> ''..'' \<and> CHR ''/'' \<notin> set s"

definition path_isAbsolute :: "string \<Rightarrow> bool" where
  "path_isAbsolute p \<longleftrightarrow> p \<noteq> [] \<and> hd p = CHR ''/''"

fun normalize_segs :: "string list \<Rightarrow> string list \<Rightarrow> string list" where
  "normalize_segs acc [] = acc"
| "normalize_segs acc (s # ss) =
     (if s = [] \<or> s = ''.'' then normalize_segs acc ss
      else if s = ''..'' then normalize_segs (butlast acc) ss
      else normalize_segs (acc @ [s]) ss)"

fun resolve_join :: "string \<Rightarrow> string \<Rightarrow> string list \<Rightarrow> string" where
  "resolve_join cwd acc [] = cwd @ ''/'' @ acc"
| "resolve_join cwd acc (p # ps) =
     (if p = [] then resolve_join cwd acc ps
      else if path_isAbsolute p then p @ ''/'' @ acc
      else resolve_join cwd (p @ ''/'' @ acc) ps)"

definition resolve_segs :: "string \<Rightarrow> string list \<Rightarrow> string list" where
  "resolve_segs cwd args = normalize_segs [] (js_split ''/'' (resolve_join cwd [] (rev args)))"

definition path_resolve :: "string \<Rightarrow> string list \<Rightarrow> string" where
  "path_resolve cwd args = ''/'' @ js_join ''/'' (resolve_segs cwd args)"

definition path_relative :: "string \<Rightarrow> string \<Rightarrow> string \<Rightarrow> string" where
  "path_relative cwd from to =
     (let fs = resolve_segs cwd [from];
          ts = resolve_segs cwd [to];
          n = length (longest_common_prefix fs ts)
      in js_join ''/'' (replicate (length fs - n) ''..'' @ drop n ts))"

text \<open>
  \<open>filePath.replace(/^<rootDir>/, rootDir)\<close>: the replacement string is a template, in
  which \<open>$$\<close> stands for a dollar sign, \<open>$&\<close> for the matched text, \<open>$`\<close> for the
  text before the match (empty here) and \<open>$'\<close> for the text after it; the pattern has
  no capture.
\<close>

fun get_substitution :: "string \<Rightarrow> string \<Rightarrow> string \<Rightarrow> string" where
  "get_substitution matched after (c # d # r) =
     (if c = CHR ''$'' \<and> d = CHR ''$'' then CHR ''$'' # get_substitution matched after r
      else if c = CHR ''$'' \<and> d = CHR ''&'' then matched @ get_substitution matched after r
      else if c = CHR ''$'' \<and> d = CHR 0x60 then get_substitution matched after r
      else if c = CHR ''$'' \<and> d = CHR 0x27 then after @ get_substitution matched after r
      else c # get_substitution matched after (d # r))"
| "get_substitution matched after r = r"

definition replace_rootDir :: "string \<Rightarrow> string \<Rightarrow> string" where
  "replace_rootDir rootDir p =
     (if prefix ''<rootDir>'' p
      then get_substitution ''<rootDir>'' (drop 9 p) rootDir @ drop 9 p
      else p)"

text \<open>\<open>.replace(/\\ /g, ' ')\<close>: every backslash followed by a space becomes a space.\<close>

fun unescape_spaces :: "string \<Rightarrow> string" where
  "unescape_spaces (c # d # r) =
     (if c = CHR 0x5C \<and> d = CHR '' '' then CHR '' '' # unescape_spaces r
      else c # unescape_spaces (d # r))"
| "unescape_spaces r = r"

section \<open>Indentation\<close>

text \<open>
  Modelled from the spec: \<open>stripIndent\<close> is a function of an external package, absent from
  the repository; the transformer takes it as a parameter. The spec has it "strip the
  minimum common leading whitespace shared by all non-empty lines": the smallest run of
  leading spaces and tabs over the lines that hold a character that is not white space
  is removed from every line that starts with at least as many.
\<close>

definition is_blank :: "char \<Rightarrow> bool" where
  "is_blank c \<longleftrightarrow> c = CHR '' '' \<or> c = CHR 0x09"

definition is_whitespace :: "char \<Rightarrow> bool" where
  "is_whitespace c \<longleftrightarrow> c \<in> set [CHR 0x09, CHR 0x0A, CHR 0x0B, CHR 0x0C, CHR 0x0D, CHR 0x20, CHR 0xA0]"

fun text_lines :: "string \<Rightarrow> string \<Rightarrow> string list" where
  "text_lines cur [] = [cur]"
| "text_lines cur (c # cs) =
     (if is_line_terminator c then cur # text_lines [] cs else text_lines (cur @ [c]) cs)"

definition line_indent :: "string \<Rightarrow> nat option" where
  "line_indent l =
     (let rest = dropWhile is_blank l
      in if rest \<noteq> [] \<and> \<not> is_whitespace (hd rest) then Some (length (takeWhile is_blank l)) else None)"

definition min_indent :: "string \<Rightarrow> nat" where
  "min_indent s =
     (case List.map_filter line_indent (text_lines [] s) of [] \<Rightarrow> 0 | m # ms \<Rightarrow> fold min ms m)"

definition strip_line :: "nat \<Rightarrow> string \<Rightarrow> string" where
  "strip_line n l = (if n \<le> length (takeWhile is_blank l) then drop n l else l)"

fun map_text_lines :: "(string \<Rightarrow> string) \<Rightarrow> string \<Rightarrow> string \<Rightarrow> string" where
  "map_text_lines f cur [] = f cur"
| "map_text_lines f cur (c # cs) =
     (if is_line_terminator c then f cur @ c # map_text_lines f [] cs
      else map_text_lines f (cur @ [c]) cs)"

definition strip_indent :: "string \<Rightarrow> string" where
  "strip_indent s = (let n = min_indent s in if n = 0 then s else map_text_lines (strip_line n) [] s)"

section \<open>The transformer\<close>

text \<open>
  The host environment: the line separator \<open>EOL\<close>, the working directory, the file store
  behind \<open>fsp.readFile\<close> (\<open>None\<close> when the read fails) and the indentation stripper.
\<close>

record env =
  env_EOL :: string
  env_cwd :: string
  readFile :: "string \<Rightarrow> string option"
  stripIndent :: "string \<Rightarrow> string"

text \<open>\<open>CodeImportOptions\<close>: an absent flag is falsy, so it is \<open>False\<close> here.\<close>

record options =
  preserveTrailingNewline :: bool
  removeRedundantIndentations :: bool
  rootDir :: "string option"
  allowImportingFromOutside :: bool

text \<open>
  A code block of the document, with the fields the syntax tree gives it. The tree walk
  (\<open>visit\<close>) is an external collaborator that hands the transformer the code blocks of the
  document in order; the transformer reads and writes these blocks only.
\<close>

record code =
  node_lang :: "string option"
  node_meta :: "string option"
  node_value :: string

record vfile =
  dirname :: "string option"

datatype job = Import string "nat option" bool "nat option"

text \<open>Lines 81 to 97: the path of the file and the containment check.\<close>

definition resolve_import :: "env \<Rightarrow> options \<Rightarrow> string \<Rightarrow> string \<Rightarrow> string \<Rightarrow> error + string" where
  "resolve_import e opts root dir target =
     (let normalizedFilePath = unescape_spaces (replace_rootDir root target);
          fileAbsPath = path_resolve (env_cwd e) [dir, normalizedFilePath]
      in if \<not> allowImportingFromOutside opts
         then
           let relativePathFromRootDir = path_relative (env_cwd e) root fileAbsPath
           in if root = [] \<or> prefix ''../'' relativePathFromRootDir
                 \<or> path_isAbsolute relativePathFromRootDir
              then Inl (OutsideRoot fileAbsPath root)
              else Inr fileAbsPath
         else Inr fileAbsPath)"

text \<open>
  The body of the loop over the code blocks, up to the point where the read is started
  (lines 54 to 97): a block without annotation is skipped, and every failure of this part
  is thrown before any read has finished.
\<close>

definition plan_node :: "env \<Rightarrow> options \<Rightarrow> string \<Rightarrow> vfile \<Rightarrow> code \<Rightarrow> error + job option" where
  "plan_node e opts root file node =
     (case find_fileMeta (node_meta node) of
        None \<Rightarrow> Inr None
      | Some fileMeta \<Rightarrow>
          if fileMeta = [] then Inr None
          else if dirname file = None \<or> dirname file = Some [] then Inl NotAVFile
          else
            (case parse_fileMeta fileMeta of
               Inl err \<Rightarrow> Inl err
             | Inr r \<Rightarrow>
                 (case resolve_import e opts root (the (dirname file)) (filePath r) of
                    Inl err \<Rightarrow> Inl err
                  | Inr fileAbsPath \<Rightarrow> Inr (Some (Import fileAbsPath (fromLine r) (hasDash r) (toLine r))))))"

fun plan_all :: "env \<Rightarrow> options \<Rightarrow> string \<Rightarrow> vfile \<Rightarrow> code list \<Rightarrow> error + job option list" where
  "plan_all e opts root file [] = Inr []"
| "plan_all e opts root file (node # nodes) =
     (case plan_node e opts root file node of
        Inl err \<Rightarrow> Inl err
      | Inr j \<Rightarrow>
          (case plan_all e opts root file nodes of
             Inl err \<Rightarrow> Inl err
           | Inr js \<Rightarrow> Inr (j # js)))"

text \<open>
  The asynchronous part of a block (lines 100 to 113): the file is read, the lines are
  extracted and written to the block's value, which is then stripped when
  \<open>removeRedundantIndentations\<close> is set.
\<close>

definition run_job :: "env \<Rightarrow> options \<Rightarrow> code \<Rightarrow> job option \<Rightarrow> error + code" where
  "run_job e opts node j =
     (case j of
        None \<Rightarrow> Inr node
      | Some (Import fileAbsPath fromL dash toL) \<Rightarrow>
          (case readFile e fileAbsPath of
             None \<Rightarrow> Inl (FileAccess fileAbsPath)
           | Some fileContent \<Rightarrow>
               let v = extractLines (env_EOL e) fileContent fromL dash toL (preserveTrailingNewline opts)
               in Inr (node\<lparr>node_value :=
                          (if removeRedundantIndentations opts then stripIndent e v else v)\<rparr>)))"

text \<open>
  \<open>Promise.all\<close>: every read must succeed. The reads run concurrently and the first one
  to fail rejects the whole; here the first failure in document order is reported.
\<close>

fun run_all :: "env \<Rightarrow> options \<Rightarrow> code list \<Rightarrow> job option list \<Rightarrow> error + code list" where
  "run_all e opts (node # nodes) (j # js) =
     (case run_job e opts node j of
        Inl err \<Rightarrow> Inl err
      | Inr node' \<Rightarrow>
          (case run_all e opts nodes js of
             Inl err \<Rightarrow> Inl err
           | Inr nodes' \<Rightarrow> Inr (node' # nodes')))"
| "run_all e opts nodes js = Inr []"

definition transformer :: "env \<Rightarrow> options \<Rightarrow> string \<Rightarrow> vfile \<Rightarrow> code list \<Rightarrow> error + code list" where
  "transformer e opts root file codes =
     (case plan_all e opts root file codes of
        Inl err \<Rightarrow> Inl err
      | Inr js \<Rightarrow> run_all e opts codes js)"

text \<open>\<open>codeImport(options)\<close>: the root directory is checked when the plugin is set up.\<close>

definition root_of :: "env \<Rightarrow> options \<Rightarrow> string" where
  "root_of e opts =
     (case rootDir opts of None \<Rightarrow> env_cwd e | Some r \<Rightarrow> if r = [] then env_cwd e else r)"

definition codeImport :: "env \<Rightarrow> options \<Rightarrow> vfile \<Rightarrow> code list \<Rightarrow> error + code list" where
  "codeImport e opts file codes =
     (if \<not> path_isAbsolute (root_of e opts) then Inl RootDirNotAbsolute
      else transformer e opts (root_of e opts) file codes)"

section \<open>A fixture\<close>

text \<open>
  The default options, a POSIX host whose working directory is \<open>/w\<close> over a given file
  store, a document in \<open>/w\<close>, a four-line file that ends with a line feed, and a code
  block with a given metadata string.
\<close>

definition default_options :: options where
  "default_options =
     \<lparr>preserveTrailingNewline = False, removeRedundantIndentations = False,
      rootDir = None, allowImportingFromOutside = False\<rparr>"

definition fixture_env :: "(string \<Rightarrow> string option) \<Rightarrow> env" where
  "fixture_env files =
     \<lparr>env_EOL = [CHR 0x0A], env_cwd = ''/w'', readFile = files, stripIndent = strip_indent\<rparr>"

definition fixture_file :: vfile where
  "fixture_file = \<lparr>dirname = Some ''/w''\<rparr>"

definition fixture_text :: string where
  "fixture_text =
     ''Hello'' @ [CHR 0x0A] @ ''line2'' @ [CHR 0x0A] @ ''  line3'' @ [CHR 0x0A] @ ''  line4'' @ [CHR 0x0A]"

definition code_block :: "string \<Rightarrow> code" where
  "code_block m = \<lparr>node_lang = Some ''js'', node_meta = Some m, node_value = []\<rparr>"

section \<open>The pattern and its closed form\<close>

declare rmatch.simps [simp del]

lemmas rmatch_step = rmatch.simps(1,2,3)

lemma take_length_dropWhile: "take (length s - length (dropWhile P s)) s = takeWhile P s"
  by (induction s) (auto simp: Suc_diff_le length_dropWhile_le)

lemma plus_greedy_digit:
  assumes "\<And>s' c. s' \<noteq> [] \<Longrightarrow> is_digit (hd s') \<Longrightarrow> k s' c = None"
  shows "rmatch (PlusGreedy Digit) s caps k =
           (if s \<noteq> [] \<and> is_digit (hd s) then k (dropWhile is_digit s) caps else None)"
proof (induction s)
  case Nil
  show ?case by (simp add: rmatch.simps(4))
next
  case (Cons c cs)
  show ?case
  proof (cases "is_digit c")
    case False
    then show ?thesis by (simp add: rmatch.simps(4))
  next
    case True
    then have step: "rmatch (PlusGreedy Digit) (c # cs) caps k =
        (case rmatch (PlusGreedy Digit) cs caps k of Some res \<Rightarrow> Some res | None \<Rightarrow> k cs caps)"
      by (subst rmatch.simps(4)) simp
    show ?thesis
    proof (cases "cs \<noteq> [] \<and> is_digit (hd cs)")
      case d: True
      then have "k cs caps = None" by (simp add: assms)
      with d True show ?thesis
        by (simp add: step Cons.IH split: option.splits)
    next
      case False
      then have "dropWhile is_digit cs = cs" by (cases cs) auto
      with False True show ?thesis
        by (auto simp: step Cons.IH split: option.splits)
    qed
  qed
qed

lemma group_digits:
  assumes "\<And>s' c. s' \<noteq> [] \<Longrightarrow> is_digit (hd s') \<Longrightarrow> k s' c = None"
  shows "rmatch (Group n (PlusGreedy Digit)) s caps k =
           (if s \<noteq> [] \<and> is_digit (hd s)
            then k (dropWhile is_digit s) (caps(n \<mapsto> takeWhile is_digit s)) else None)"
proof -
  have "rmatch (PlusGreedy Digit) s caps (\<lambda>s' caps'. k s' (caps'(n \<mapsto> take (length s - length s') s))) =
          (if s \<noteq> [] \<and> is_digit (hd s)
           then (\<lambda>s' caps'. k s' (caps'(n \<mapsto> take (length s - length s') s))) (dropWhile is_digit s) caps
           else None)"
    by (rule plus_greedy_digit) (simp add: assms)
  then show ?thesis by (simp add: rmatch.simps(6) take_length_dropWhile)
qed

lemma k_end_simp: "k_end s caps = (if s = [] then Some caps else None)"
  by (simp add: k_end_def rmatch.simps(7))

lemma k_to_simp: "k_to s caps = map_option (set_opt caps ''to'') (to_part s)"
proof (cases s)
  case Nil
  then show ?thesis
    by (simp add: k_to_def re_to_def rmatch_step k_end_simp to_part_def set_opt_def)
next
  case (Cons c r)
  have g: "rmatch (Group ''to'' (PlusGreedy Digit)) r caps k_end =
           (if r \<noteq> [] \<and> is_digit (hd r)
            then k_end (dropWhile is_digit r) (caps(''to'' \<mapsto> takeWhile is_digit r)) else None)"
    by (rule group_digits) (simp add: k_end_simp)
  have h: "r \<noteq> [] \<and> list_all is_digit r \<Longrightarrow> is_digit (hd r)"
    by (cases r) auto
  have t: "list_all is_digit r \<Longrightarrow> takeWhile is_digit r = r"
    by (simp add: list_all_iff)
  show ?thesis
    using h t
    by (auto simp: Cons k_to_def re_to_def rmatch_step g k_end_simp to_part_def set_opt_def
        list_all_iff)
qed

lemma to_part_digit: "s \<noteq> [] \<Longrightarrow> is_digit (hd s) \<Longrightarrow> to_part s = None"
  by (cases s) (auto simp: to_part_def is_digit_def)

lemma k_dash_simp:
  "k_dash s caps = map_option (\<lambda>(d, t). set_opt (set_opt caps ''dash'' d) ''to'' t) (dash_to s)"
proof (cases s)
  case Nil
  then show ?thesis
    by (simp add: k_dash_def re_dash_def rmatch_step rmatch.simps(6) k_to_simp dash_to_def
        to_part_def set_opt_def)
next
  case (Cons c r)
  show ?thesis
  proof (cases "c = CHR ''-''")
    case True
    then have "to_part (c # r) = None" by (simp add: to_part_def)
    with True show ?thesis
      by (cases "to_part r")
         (simp_all add: Cons k_dash_def re_dash_def rmatch_step rmatch.simps(6) k_to_simp
            dash_to_def set_opt_def)
  next
    case False
    then show ?thesis
      by (cases "to_part (c # r)")
         (simp_all add: Cons k_dash_def re_dash_def rmatch_step rmatch.simps(6) k_to_simp
            dash_to_def set_opt_def)
  qed
qed

lemma dash_to_digit: "s \<noteq> [] \<Longrightarrow> is_digit (hd s) \<Longrightarrow> dash_to s = None"
  by (cases s) (auto simp: dash_to_def to_part_digit is_digit_def)

lemma match_from:
  "rmatch re_from s caps k_to =
     (case s of [] \<Rightarrow> Some caps
      | c # r \<Rightarrow>
          if c = CHR ''L'' \<and> r \<noteq> [] \<and> is_digit (hd r)
          then map_option (\<lambda>(d, t). set_opt (set_opt (caps(''from'' \<mapsto> takeWhile is_digit r)) ''dash'' d) ''to'' t)
                 (dash_to (dropWhile is_digit r))
          else None)"
proof (cases s)
  case Nil
  then show ?thesis
    by (simp add: re_from_def rmatch_step k_to_simp to_part_def set_opt_def)
next
  case (Cons c r)
  have g: "rmatch (Group ''from'' (PlusGreedy Digit)) r caps k_dash =
           (if r \<noteq> [] \<and> is_digit (hd r)
            then k_dash (dropWhile is_digit r) (caps(''from'' \<mapsto> takeWhile is_digit r)) else None)"
    by (rule group_digits) (simp add: k_dash_simp dash_to_digit)
  have unf: "rmatch re_from (c # r) caps k_to =
      (case (if c = CHR ''L'' then rmatch (Group ''from'' (PlusGreedy Digit)) r caps k_dash else None) of
         Some res \<Rightarrow> Some res | None \<Rightarrow> k_to (c # r) caps)"
    by (simp add: re_from_def rmatch_step k_dash_def [symmetric])
  show ?thesis
  proof (cases "c = CHR ''L'' \<and> r \<noteq> [] \<and> is_digit (hd r)")
    case False
    then have "to_part (c # r) = None"
      by (cases r) (auto simp: to_part_def)
    with False show ?thesis
      unfolding Cons unf by (auto simp: g k_to_simp)
  next
    case d: True
    show ?thesis
    proof (cases "dash_to (dropWhile is_digit r)")
      case (Some a)
      with d show ?thesis
        unfolding Cons unf by (simp add: g k_dash_simp)
    next
      case None
      have "\<not> list_all is_digit r"
      proof
        assume "list_all is_digit r"
        then have "dropWhile is_digit r = []" by (simp add: list_all_iff)
        with None show False by (simp add: dash_to_def)
      qed
      then have "to_part (c # r) = None" by (simp add: to_part_def)
      with None d show ?thesis
        unfolding Cons unf by (simp add: g k_dash_simp k_to_simp)
    qed
  qed
qed

lemma re_tail_unf:
  "rmatch re_tail t caps (\<lambda>s' caps'. Some caps') =
      (case (case t of [] \<Rightarrow> None | c # r \<Rightarrow> if c = CHR ''#'' then rmatch re_from r caps k_to else None) of
         Some res \<Rightarrow> Some res | None \<Rightarrow> k_end t caps)"
  by (cases t) (auto simp: re_tail_def rmatch_step k_end_def [symmetric] k_to_def [symmetric])

lemma match_tail:
  "rmatch re_tail t caps (\<lambda>s' caps'. Some caps') =
     map_option (\<lambda>(f, d, to). set_opt (set_opt (set_opt caps ''from'' f) ''dash'' d) ''to'' to)
       (tail_groups t)"
proof (cases t)
  case Nil
  then show ?thesis
    by (simp add: re_tail_unf k_end_simp tail_groups_def set_opt_def)
next
  case (Cons c r)
  show ?thesis
  proof (cases "c = CHR ''#''")
    case False
    then show ?thesis
      by (simp add: Cons re_tail_unf k_end_simp tail_groups_def)
  next
    case True
    show ?thesis
    proof (cases r)
      case Nil
      with True show ?thesis
        by (simp add: Cons re_tail_unf k_end_simp match_from tail_groups_def set_opt_def)
    next
      case r: (Cons c1 r1)
      with True show ?thesis
        by (cases "dash_to (dropWhile is_digit r1)")
           (auto simp: Cons re_tail_unf k_end_simp match_from tail_groups_def set_opt_def
              split: option.splits)
    qed
  qed
qed

subsection \<open>The lazy path and the whole pattern\<close>

lemma set_opt_simps:
  "set_opt caps n None = caps"
  "set_opt caps n (Some x) = caps(n \<mapsto> x)"
  by (simp_all add: set_opt_def)

lemma lits_match:
  "rmatch (lits p r) s caps k = (if prefix p s then rmatch r (drop (length p) s) caps k else None)"
proof (induction p arbitrary: s)
  case Nil
  show ?case by simp
next
  case (Cons c p)
  show ?case
    by (cases s) (simp_all add: rmatch_step Cons.IH)
qed

lemma plus_lazy_dot:
  "rmatch (PlusLazy Dot) (c # cs) caps k =
     (if is_line_terminator c then None
      else (case k cs caps of Some res \<Rightarrow> Some res | None \<Rightarrow> rmatch (PlusLazy Dot) cs caps k))"
  by (subst rmatch.simps(5)) simp

lemma lazy_path:
  "rmatch (PlusLazy Dot) s caps
     (\<lambda>s' caps'. rmatch re_tail s' (caps'(''path'' \<mapsto> take (length (acc @ s) - length s') (acc @ s)))
        (\<lambda>s' caps'. Some caps')) =
   map_option (caps_of caps) (split_ref acc s)"
proof (induction s arbitrary: acc)
  case Nil
  show ?case by (simp add: rmatch.simps(5))
next
  case (Cons c cs)
  define K where "K = (\<lambda>s' caps'. rmatch re_tail s'
      (caps'(''path'' \<mapsto> take (length (acc @ c # cs) - length s') (acc @ c # cs))) (\<lambda>s' caps'. Some caps'))"
  have ih: "rmatch (PlusLazy Dot) cs caps K = map_option (caps_of caps) (split_ref (acc @ [c]) cs)"
    unfolding K_def using Cons.IH [of "acc @ [c]"]
    by (simp only: append_assoc append_Cons append_Nil)
  have here: "K cs caps = map_option (\<lambda>g. caps_of caps (acc @ [c], g)) (tail_groups cs)"
    by (cases "tail_groups cs") (auto simp: K_def match_tail caps_of_def)
  have "rmatch (PlusLazy Dot) (c # cs) caps K = map_option (caps_of caps) (split_ref acc (c # cs))"
    by (cases "tail_groups cs") (simp_all add: plus_lazy_dot here ih)
  then show ?case by (simp only: K_def)
qed

lemma exec_fileMeta_closed:
  "exec_fileMeta s =
     (if prefix ''file='' s then map_option (caps_of Map.empty) (split_ref [] (drop 5 s)) else None)"
proof -
  have "rmatch (Seq (Group ''path'' (PlusLazy Dot)) re_tail) u Map.empty (\<lambda>s' caps'. Some caps') =
        map_option (caps_of Map.empty) (split_ref [] u)" for u
    using lazy_path [of u Map.empty "[]"] by (simp add: rmatch.simps(2,6))
  then show ?thesis
    by (simp add: exec_fileMeta_def re_fileMeta_def lits_match eval_nat_numeral del: lits.simps)
qed

text \<open>What the captures of a matching rest look like.\<close>

lemma to_part_Some:
  "to_part s = Some t \<Longrightarrow>
     (t = None \<and> s = []) \<or> (\<exists>ds. t = Some ds \<and> ds \<noteq> [] \<and> list_all is_digit ds \<and> s = CHR ''L'' # ds)"
  by (cases s) (auto simp: to_part_def split: if_splits)

lemma dash_to_Some:
  "dash_to s = Some (d, t) \<Longrightarrow>
     (d = None \<and> to_part s = Some t) \<or> (d = Some ''-'' \<and> (\<exists>r. s = CHR ''-'' # r \<and> to_part r = Some t))"
  by (cases s) (auto simp: dash_to_def to_part_def split: if_splits)

lemma tail_groups_Some:
  assumes "tail_groups u = Some (f, d, t)"
  shows "(f = None \<and> d = None \<and> t = None \<and> (u = [] \<or> u = ''#'')) \<or>
         (\<exists>ds r. f = Some ds \<and> ds \<noteq> [] \<and> list_all is_digit ds \<and> u = ''#L'' @ ds @ r
                 \<and> dash_to r = Some (d, t) \<and> (r \<noteq> [] \<longrightarrow> \<not> is_digit (hd r)))"
proof (cases u)
  case Nil
  with assms show ?thesis by (simp add: tail_groups_def)
next
  case (Cons c r)
  show ?thesis
  proof (cases r)
    case Nil
    with assms Cons show ?thesis by (auto simp: tail_groups_def split: if_splits)
  next
    case r: (Cons c1 r1)
    from assms Cons r have c: "c = CHR ''#''" "c1 = CHR ''L''" "r1 \<noteq> []" "is_digit (hd r1)"
      and f: "f = Some (takeWhile is_digit r1)" and dt: "dash_to (dropWhile is_digit r1) = Some (d, t)"
      by (auto simp: tail_groups_def split: if_splits)
    have "takeWhile is_digit r1 \<noteq> []" using c by (cases r1) auto
    moreover have "list_all is_digit (takeWhile is_digit r1)"
      by (auto simp: list_all_iff dest: set_takeWhileD)
    moreover have "u = ''#L'' @ takeWhile is_digit r1 @ dropWhile is_digit r1"
      using Cons r c by simp
    moreover have "dropWhile is_digit r1 \<noteq> [] \<longrightarrow> \<not> is_digit (hd (dropWhile is_digit r1))"
      using hd_dropWhile by blast
    ultimately show ?thesis using f dt by blast
  qed
qed

lemma tail_groups_truthy:
  assumes "tail_groups u = Some (f, d, t)"
  shows "f \<noteq> Some [] \<and> d \<noteq> Some [] \<and> t \<noteq> Some [] \<and> (t \<noteq> None \<longrightarrow> f \<noteq> None)"
  using tail_groups_Some [OF assms] by (auto dest!: dash_to_Some to_part_Some)

lemma split_ref_path: "split_ref acc s = Some (p, g) \<Longrightarrow> p \<noteq> []"
  by (induction s arbitrary: acc) (auto split: if_splits option.splits)

text \<open>The parser in closed form.\<close>

lemma parse_fileMeta_closed:
  "parse_fileMeta m =
     (if prefix ''file='' m
      then (case split_ref [] (drop 5 m) of
              None \<Rightarrow> Inl (UnableToParse m)
            | Some (p, f, d, t) \<Rightarrow>
                Inr \<lparr>filePath = p, fromLine = map_option parseInt10 f,
                     hasDash = (d \<noteq> None \<or> f = None), toLine = map_option parseInt10 t\<rparr>)
      else Inl (UnableToParse m))"
proof (cases "prefix ''file='' m")
  case False
  then show ?thesis by (simp add: parse_fileMeta_def exec_fileMeta_closed)
next
  case True
  show ?thesis
  proof (cases "split_ref [] (drop 5 m)")
    case None
    with True show ?thesis by (simp add: parse_fileMeta_def exec_fileMeta_closed)
  next
    case (Some r)
    obtain p f d t where r: "r = (p, f, d, t)" by (cases r) auto
    from Some r have "p \<noteq> []" by (auto dest: split_ref_path)
    moreover have "\<exists>acc s. split_ref acc s = Some (p, f, d, t)" using Some r by blast
    then have "\<exists>u. tail_groups u = Some (f, d, t)"
    proof -
      have "split_ref acc s = Some (p, g) \<Longrightarrow> \<exists>u. tail_groups u = Some g" for acc s g
        by (induction s arbitrary: acc) (auto split: if_splits option.splits)
      then show ?thesis using Some r by blast
    qed
    then have "f \<noteq> Some [] \<and> d \<noteq> Some [] \<and> t \<noteq> Some [] \<and> (t \<noteq> None \<longrightarrow> f \<noteq> None)"
      by (auto dest: tail_groups_truthy)
    ultimately show ?thesis
      using True Some r
      by (cases f; cases d; cases t)
         (simp_all add: parse_fileMeta_def exec_fileMeta_closed caps_of_def set_opt_simps truthy_def)
  qed
qed

subsection \<open>Which rests match, and where the path ends\<close>

lemma is_digit_not_special:
  "is_digit c \<Longrightarrow> c \<noteq> CHR ''#'' \<and> c \<noteq> CHR ''L'' \<and> c \<noteq> CHR ''-'' \<and> \<not> is_line_terminator c"
  by (auto simp: is_digit_def is_line_terminator_def)

lemma dash_to_chars:
  assumes "dash_to r = Some (d, t)"
  shows "\<forall>c\<in>set r. c = CHR ''-'' \<or> c = CHR ''L'' \<or> is_digit c"
proof -
  have tp: "to_part s = Some t \<Longrightarrow> \<forall>c\<in>set s. c = CHR ''L'' \<or> is_digit c" for s
    by (drule to_part_Some) (auto simp: list_all_iff)
  from dash_to_Some [OF assms] show ?thesis
  proof
    assume "d = None \<and> to_part r = Some t"
    then show ?thesis using tp by blast
  next
    assume "d = Some ''-'' \<and> (\<exists>r'. r = CHR ''-'' # r' \<and> to_part r' = Some t)"
    then obtain r' where "r = CHR ''-'' # r'" "to_part r' = Some t" by blast
    then show ?thesis using tp [of r'] by auto
  qed
qed

lemma tail_groups_chars:
  assumes "tail_groups u = Some g" and "u \<noteq> []"
  shows "hd u = CHR ''#'' \<and> (\<forall>c\<in>set (tl u). c = CHR ''-'' \<or> c = CHR ''L'' \<or> is_digit c)"
proof -
  obtain f d t where g: "g = (f, d, t)" by (cases g) auto
  from tail_groups_Some [OF assms(1) [unfolded g]] assms(2)
  consider "u = ''#''"
    | ds r where "u = ''#L'' @ ds @ r" "list_all is_digit ds" "dash_to r = Some (d, t)"
    by blast
  then show ?thesis
  proof cases
    case 1
    then show ?thesis by simp
  next
    case (2 ds r)
    from dash_to_chars [OF 2(3)] 2(2) show ?thesis
      by (auto simp: 2(1) list_all_iff)
  qed
qed

lemma tail_groups_hash:
  assumes "CHR ''#'' \<in> set r"
  shows "tail_groups (c # r) = None"
proof (rule ccontr)
  assume "tail_groups (c # r) \<noteq> None"
  then obtain g where "tail_groups (c # r) = Some g" by auto
  from tail_groups_chars [OF this] assms
  have "CHR ''#'' = CHR ''-'' \<or> CHR ''#'' = CHR ''L'' \<or> is_digit (CHR ''#'')" by fastforce
  then show False using is_digit_not_special [of "CHR ''#''"] by simp
qed

lemma tail_groups_no_terminator:
  assumes "tail_groups u = Some g"
  shows "\<forall>c\<in>set u. \<not> is_line_terminator c"
proof (cases u)
  case Nil
  then show ?thesis by simp
next
  case (Cons c r)
  then have "u \<noteq> []" by simp
  from tail_groups_chars [OF assms this]
  have c: "c = CHR ''#''" and r: "\<forall>x\<in>set r. x = CHR ''-'' \<or> x = CHR ''L'' \<or> is_digit x"
    unfolding Cons by simp_all
  have "\<not> is_line_terminator x" if "x \<in> set (c # r)" for x
  proof (cases "x = c")
    case True
    then show ?thesis by (simp add: c is_line_terminator_def)
  next
    case False
    with that have "x \<in> set r" by simp
    with r have "x = CHR ''-'' \<or> x = CHR ''L'' \<or> is_digit x" by blast
    then show ?thesis
      using is_digit_not_special [of x] by (auto simp: is_line_terminator_def)
  qed
  then show ?thesis unfolding Cons by blast
qed

lemma split_ref_None_iff:
  "split_ref acc s = None \<longleftrightarrow> s = [] \<or> (\<exists>c\<in>set s. is_line_terminator c)"
proof (induction s arbitrary: acc)
  case Nil
  show ?case by simp
next
  case (Cons c cs)
  show ?case
  proof (cases "is_line_terminator c")
    case True
    then show ?thesis by simp
  next
    case False
    show ?thesis
    proof (cases "tail_groups cs")
      case None
      then have "cs \<noteq> []" by (auto simp: tail_groups_def)
      then have "split_ref (acc @ [c]) cs = None \<longleftrightarrow> (\<exists>x\<in>set cs. is_line_terminator x)"
        using Cons.IH [of "acc @ [c]"] by simp
      with None False show ?thesis by simp
    next
      case (Some g)
      from tail_groups_no_terminator [OF Some] have "\<not> (\<exists>x\<in>set cs. is_line_terminator x)"
        by blast
      with Some False show ?thesis by simp
    qed
  qed
qed

text \<open>A rest that begins with \<open>#\<close> and matches ends the path in front of it.\<close>

lemma split_ref_section:
  assumes "tail_groups t = Some g" and "t \<noteq> []"
    and "p \<noteq> []" and "list_all (\<lambda>c. \<not> is_line_terminator c) p"
  shows "split_ref acc (p @ t) = Some (acc @ p, g)"
  using assms(3,4)
proof (induction p arbitrary: acc)
  case Nil
  then show ?case by simp
next
  case (Cons c p)
  show ?case
  proof (cases "p = []")
    case True
    with Cons.prems assms(1) show ?thesis by simp
  next
    case False
    from tail_groups_chars [OF assms(1,2)] assms(2) have "CHR ''#'' \<in> set t"
      by (cases t) auto
    then have "tail_groups (p @ t) = None"
      using False by (cases p) (auto intro: tail_groups_hash)
    with Cons.prems Cons.IH [OF False, of "acc @ [c]"] show ?thesis by simp
  qed
qed

text \<open>A text none of whose proper suffixes matches is a path as a whole.\<close>

lemma split_ref_whole:
  assumes "s \<noteq> []" and "list_all (\<lambda>c. \<not> is_line_terminator c) s"
    and "\<And>k. 0 < k \<Longrightarrow> k < length s \<Longrightarrow> tail_groups (drop k s) = None"
  shows "split_ref acc s = Some (acc @ s, None, None, None)"
  using assms
proof (induction s arbitrary: acc)
  case Nil
  then show ?case by simp
next
  case (Cons c cs)
  show ?case
  proof (cases "cs = []")
    case True
    with Cons.prems show ?thesis by (simp add: tail_groups_def)
  next
    case False
    have "tail_groups cs = None"
      using Cons.prems(3) [of 1] False by simp
    moreover have "tail_groups (drop k cs) = None" if "0 < k" "k < length cs" for k
      using Cons.prems(3) [of "Suc k"] that by simp
    ultimately show ?thesis
      using Cons.prems(2) Cons.IH [OF False, of "acc @ [c]"] by simp
  qed
qed

lemma tail_groups_not_hash: "u \<noteq> [] \<Longrightarrow> hd u \<noteq> CHR ''#'' \<Longrightarrow> tail_groups u = None"
  by (cases u) (simp_all add: tail_groups_def)

lemma takeWhile_digits_app:
  "list_all is_digit ds \<Longrightarrow> (r \<noteq> [] \<Longrightarrow> \<not> is_digit (hd r)) \<Longrightarrow> takeWhile is_digit (ds @ r) = ds"
proof (induction ds)
  case Nil
  then show ?case by (cases r) auto
next
  case (Cons c ds)
  then show ?case by simp
qed

lemma dropWhile_digits_app:
  "list_all is_digit ds \<Longrightarrow> (r \<noteq> [] \<Longrightarrow> \<not> is_digit (hd r)) \<Longrightarrow> dropWhile is_digit (ds @ r) = r"
proof (induction ds)
  case Nil
  then show ?case by (cases r) auto
next
  case (Cons c ds)
  then show ?case by simp
qed

lemma tail_groups_from:
  assumes "ds \<noteq> []" and "list_all is_digit ds" and "r \<noteq> [] \<Longrightarrow> \<not> is_digit (hd r)"
  shows "tail_groups (''#L'' @ ds @ r) = map_option (Pair (Some ds)) (dash_to r)"
proof -
  have "is_digit (hd (ds @ r))" using assms(1,2) by (cases ds) auto
  then show ?thesis
    using assms by (simp add: tail_groups_def takeWhile_digits_app dropWhile_digits_app)
qed

lemma split_ref_tail: "split_ref acc s = Some (p, g) \<Longrightarrow> \<exists>u. tail_groups u = Some g"
  by (induction s arbitrary: acc) (auto split: if_splits option.splits)

lemma has_section_iff:
  "has_section s \<longleftrightarrow> (\<exists>k. 0 < k \<and> k < length s \<and> tail_groups (drop k s) \<noteq> None)"
  unfolding has_section_def list_ex_iff
  by (auto simp: Suc_le_eq simp del: not_None_eq)

lemma parse_whole:
  assumes "s \<noteq> []" and "list_all (\<lambda>c. \<not> is_line_terminator c) s" and "\<not> has_section s"
  shows "parse_fileMeta (''file='' @ s) =
           Inr \<lparr>filePath = s, fromLine = None, hasDash = True, toLine = None\<rparr>"
proof -
  have "tail_groups (drop k s) = None" if "0 < k" "k < length s" for k
    using assms(3) that unfolding has_section_iff by blast
  from split_ref_whole [OF assms(1,2) this, of "[]"] show ?thesis
    by (simp add: parse_fileMeta_closed)
qed

lemma parse_section:
  assumes "tail_groups t = Some (f, d, to)" and "t \<noteq> []"
    and "p \<noteq> []" and "list_all (\<lambda>c. \<not> is_line_terminator c) p"
  shows "parse_fileMeta (''file='' @ p @ t) =
           Inr \<lparr>filePath = p, fromLine = map_option parseInt10 f,
                hasDash = (d \<noteq> None \<or> f = None), toLine = map_option parseInt10 to\<rparr>"
  using split_ref_section [OF assms, of "[]"] by (simp add: parse_fileMeta_closed)

lemma no_section_after_dash:
  assumes "list_all is_digit ds"
  shows "\<not> has_section (p @ ''#-L'' @ ds)"
proof -
  have none: "tail_groups (drop k (p @ ''#-L'' @ ds)) = None"
    if k: "0 < k" "k < length (p @ ''#-L'' @ ds)" for k
  proof -
    consider "k < length p" | "k = length p" | "length p < k" by linarith
    then show ?thesis
    proof cases
      case 1
      then obtain x r where "drop k p = x # r" by (cases "drop k p") auto
      then have "drop k (p @ ''#-L'' @ ds) = x # (r @ ''#-L'' @ ds)" using 1 by simp
      then show ?thesis by (simp add: tail_groups_hash)
    next
      case 2
      then show ?thesis by (simp add: tail_groups_def)
    next
      case 3
      define u where "u = drop k (p @ ''#-L'' @ ds)"
      obtain j where j: "k - length p = Suc j" using 3 by (cases "k - length p") auto
      have "u = drop (k - length p) (''#-L'' @ ds)" using 3 by (simp add: u_def)
      then have u: "u = drop j (''-L'' @ ds)" by (simp add: j)
      have "0 < length u" using k unfolding u_def length_drop by linarith
      then have "u \<noteq> []" by auto
      then have "hd u \<in> set u" by (rule hd_in_set)
      then have "hd u \<in> set (''-L'' @ ds)"
        unfolding u by (rule in_set_dropD)
      then have "hd u = CHR ''-'' \<or> hd u = CHR ''L'' \<or> is_digit (hd u)"
        using assms by (auto simp: list_all_iff)
      then have "hd u \<noteq> CHR ''#''"
        using is_digit_not_special [of "hd u"] by auto
      with \<open>u \<noteq> []\<close> show ?thesis
        unfolding u_def [symmetric] by (rule tail_groups_not_hash)
    qed
  qed
  show ?thesis
  proof
    assume "has_section (p @ ''#-L'' @ ds)"
    then obtain k where "0 < k" "k < length (p @ ''#-L'' @ ds)"
      "tail_groups (drop k (p @ ''#-L'' @ ds)) \<noteq> None"
      unfolding has_section_iff by blast
    with none [of k] show False by blast
  qed
qed

section \<open>Claims on the reference parser\<close>

text \<open>
  C3, as corrected. The claim has every annotation whose \<open>#\<close> section is \<open>-L<n>\<close> fail
  with a malformed-reference error. The pattern does not reject such an annotation: for
  every non-empty path without line terminator and all digits \<open>ds\<close>, the annotation
  \<open>file=<path>#-L<ds>\<close> parses, as a reference to the whole of the file whose name is
  the whole text \<open><path>#-L<ds>\<close> (no first line, no last line, range).
\<close>

theorem only_following_lines_parse_as_path:
  assumes "p \<noteq> []" and "list_all (\<lambda>c. \<not> is_line_terminator c) p" and "list_all is_digit ds"
  shows "parse_fileMeta (''file='' @ p @ ''#-L'' @ ds) =
           Inr \<lparr>filePath = p @ ''#-L'' @ ds, fromLine = None, hasDash = True, toLine = None\<rparr>"
proof -
  have "\<not> is_line_terminator c" if "c \<in> set (p @ ''#-L'' @ ds)" for c
  proof -
    from that consider "c \<in> set p" | "c = CHR ''#''" | "c = CHR ''-''" | "c = CHR ''L''" | "c \<in> set ds"
      by auto
    then show ?thesis
    proof cases
      case 1
      then show ?thesis using assms(2) by (simp add: list_all_iff)
    next
      case 5
      then have "is_digit c" using assms(3) by (simp add: list_all_iff)
      then show ?thesis using is_digit_not_special by blast
    qed (simp_all add: is_line_terminator_def)
  qed
  then have a: "list_all (\<lambda>c. \<not> is_line_terminator c) (p @ ''#-L'' @ ds)"
    unfolding list_all_iff by blast
  have b: "p @ ''#-L'' @ ds \<noteq> []" by simp
  show ?thesis
    using parse_whole [OF b a no_section_after_dash [OF assms(3)]] by (simp only: append_assoc)
qed

theorem only_following_lines_parse_as_path_witness:
  "''f.js'' \<noteq> [] \<and> list_all (\<lambda>c. \<not> is_line_terminator c) ''f.js'' \<and> list_all is_digit ''2''
   \<and> parse_fileMeta ''file=f.js#-L2'' =
       Inr \<lparr>filePath = ''f.js#-L2'', fromLine = None, hasDash = True, toLine = None\<rparr>"
  using only_following_lines_parse_as_path [of "''f.js''" "''2''"]
  by (simp add: is_line_terminator_def is_digit_def)

text \<open>
  The claim fails where the file store holds a file of that name: the annotation
  \<open>file=f.js#-L2\<close> is processed without error and the block receives the whole file.
\<close>

theorem only_following_lines_counterexample:
  "codeImport (fixture_env (\<lambda>p. if p = ''/w/f.js#-L2'' then Some ''one'' else None))
      default_options fixture_file [code_block ''file=f.js#-L2'']
     = Inr [(code_block ''file=f.js#-L2'')\<lparr>node_value := ''one''\<rparr>]"
  by code_simp

text \<open>
  C4, as corrected. The claim has every annotation with a malformed tail fail to parse.
  Parsing of \<open>file=<s>\<close> fails exactly when \<open>s\<close> is empty or holds a line terminator;
  a tail that does not match the line-spec grammar never makes it fail: when no proper
  suffix of \<open>s\<close> matches the grammar, the whole of \<open>s\<close> is the path of a whole-file
  reference.
\<close>

theorem malformed_tail_is_absorbed:
  "((\<exists>err. parse_fileMeta (''file='' @ s) = Inl err) \<longleftrightarrow> s = [] \<or> list_ex is_line_terminator s)
   \<and> (s \<noteq> [] \<and> list_all (\<lambda>c. \<not> is_line_terminator c) s \<and> \<not> has_section s \<longrightarrow>
        parse_fileMeta (''file='' @ s) =
          Inr \<lparr>filePath = s, fromLine = None, hasDash = True, toLine = None\<rparr>)"
proof
  have "(\<exists>err. parse_fileMeta (''file='' @ s) = Inl err) \<longleftrightarrow> split_ref [] s = None"
    by (cases "split_ref [] s") (auto simp: parse_fileMeta_closed)
  then show "(\<exists>err. parse_fileMeta (''file='' @ s) = Inl err) \<longleftrightarrow> s = [] \<or> list_ex is_line_terminator s"
    by (simp add: split_ref_None_iff list_ex_iff)
next
  show "s \<noteq> [] \<and> list_all (\<lambda>c. \<not> is_line_terminator c) s \<and> \<not> has_section s \<longrightarrow>
        parse_fileMeta (''file='' @ s) =
          Inr \<lparr>filePath = s, fromLine = None, hasDash = True, toLine = None\<rparr>"
    using parse_whole [of s] by blast
qed

theorem malformed_tail_is_absorbed_witness:
  "\<not> (\<exists>err. parse_fileMeta ''file=a.js#L2x'' = Inl err)
   \<and> parse_fileMeta ''file=a.js#L2x'' =
        Inr \<lparr>filePath = ''a.js#L2x'', fromLine = None, hasDash = True, toLine = None\<rparr>"
proof -
  have a: "\<not> list_ex is_line_terminator ''a.js#L2x''"
    by (simp add: is_line_terminator_def)
  have b: "list_all (\<lambda>c. \<not> is_line_terminator c) ''a.js#L2x''"
    by (simp add: is_line_terminator_def)
  have c: "\<not> has_section ''a.js#L2x''"
    by code_simp
  from malformed_tail_is_absorbed [of "''a.js#L2x''"] a b c show ?thesis
    by simp
qed

text \<open>A stray character after the line number: the annotation parses, as a path.\<close>

theorem malformed_tail_counterexample:
  "parse_fileMeta ''file=a.js#L12abc'' =
     Inr \<lparr>filePath = ''a.js#L12abc'', fromLine = None, hasDash = True, toLine = None\<rparr>"
  by code_simp

text \<open>
  C8, as corrected. The claim has \<open>toLine\<close> set only in a range. The pattern accepts a
  last line without dash (\<open>#L<n>L<m>\<close>), so a reference can have \<open>toLine\<close> set and be
  no range. What holds for every parsed reference: \<open>toLine\<close> is set only together with
  \<open>fromLine\<close>; a reference that is no range has \<open>fromLine\<close> set, and the extractor then
  ignores its \<open>toLine\<close> and selects what it selects for the single line.
\<close>

theorem toLine_set_only_with_fromLine:
  assumes "parse_fileMeta m = Inr r"
  shows "(toLine r \<noteq> None \<longrightarrow> fromLine r \<noteq> None)
       \<and> (\<not> hasDash r \<longrightarrow>
            fromLine r \<noteq> None
            \<and> extractLines eol content (fromLine r) (hasDash r) (toLine r) pres
                = extractLines eol content (fromLine r) False None pres)"
proof -
  from assms obtain p f d t where s: "split_ref [] (drop 5 m) = Some (p, f, d, t)"
    and r: "r = \<lparr>filePath = p, fromLine = map_option parseInt10 f,
                  hasDash = (d \<noteq> None \<or> f = None), toLine = map_option parseInt10 t\<rparr>"
    by (auto simp: parse_fileMeta_closed split: if_splits option.splits)
  from split_ref_tail [OF s] obtain u where "tail_groups u = Some (f, d, t)" by blast
  from tail_groups_truthy [OF this] have "t \<noteq> None \<longrightarrow> f \<noteq> None" by blast
  then show ?thesis
    by (auto simp: r extractLines_def selected_lines_def end_line_def)
qed

theorem toLine_set_only_with_fromLine_witness:
  "parse_fileMeta ''file=a#L3L1'' =
     Inr \<lparr>filePath = ''a'', fromLine = Some 3, hasDash = False, toLine = Some 1\<rparr>
   \<and> extractLines [CHR 0x0A] fixture_text (Some 3) False (Some 1) False
       = extractLines [CHR 0x0A] fixture_text (Some 3) False None False"
proof -
  have p: "parse_fileMeta ''file=a#L3L1'' =
     Inr \<lparr>filePath = ''a'', fromLine = Some 3, hasDash = False, toLine = Some 1\<rparr>"
    by code_simp
  from toLine_set_only_with_fromLine [OF p, of "[CHR 0x0A]" fixture_text False] p
  show ?thesis by simp
qed

text \<open>A last line without dash: \<open>toLine\<close> is set and the reference is no range.\<close>

theorem toLine_without_range_counterexample:
  "parse_fileMeta ''file=a#L1L2'' =
     Inr \<lparr>filePath = ''a'', fromLine = Some 1, hasDash = False, toLine = Some 2\<rparr>"
  by code_simp

lemma split_ref_decomp:
  "split_ref acc s = Some (p, g) \<Longrightarrow> \<exists>u. acc @ s = p @ u \<and> tail_groups u = Some g"
proof (induction s arbitrary: acc)
  case Nil
  then show ?case by simp
next
  case (Cons c cs)
  show ?case
  proof (cases "tail_groups cs")
    case None
    with Cons.prems have "split_ref (acc @ [c]) cs = Some (p, g)"
      by (simp split: if_splits)
    from Cons.IH [OF this] show ?thesis by simp
  next
    case (Some g')
    with Cons.prems have "p = acc @ [c]" "g = g'"
      by (simp_all split: if_splits)
    with Some show ?thesis by simp
  qed
qed

lemma digit_value_zero: "is_digit c \<Longrightarrow> of_char c - (48::nat) = 0 \<longleftrightarrow> c = CHR ''0''"
  unfolding is_digit_def by (elim disjE | simp)+

lemma digits_value_zero:
  "list_all is_digit ds \<Longrightarrow>
     foldl (\<lambda>a c. 10 * a + (of_char c - 48)) a ds = (0::nat)
       \<longleftrightarrow> a = 0 \<and> list_all (\<lambda>c. c = CHR ''0'') ds"
proof (induction ds arbitrary: a)
  case Nil
  show ?case by simp
next
  case (Cons c ds)
  then have c: "is_digit c" and ds: "list_all is_digit ds" by simp_all
  show ?case
    using Cons.IH [OF ds, of "10 * a + (of_char c - 48)"] digit_value_zero [OF c]
    by auto
qed

lemma parseInt10_zero_iff:
  "list_all is_digit ds \<Longrightarrow> parseInt10 ds = 0 \<longleftrightarrow> list_all (\<lambda>c. c = CHR ''0'') ds"
proof -
  assume d: "list_all is_digit ds"
  then have tw: "takeWhile is_digit ds = ds" by (simp add: list_all_iff)
  show ?thesis
    unfolding parseInt10_def tw using digits_value_zero [OF d, of 0] by simp
qed

text \<open>
  C9, as corrected. The claim has \<open>fromLine\<close>, when present, at least 1. The parser sets
  no lower bound. In every parsed reference with a first line, the annotation is
  \<open>file=\<close>, the path of the reference, \<open>#L\<close>, a non-empty run of digits that no digit
  follows, and a rest; \<open>fromLine\<close> is 0 exactly when every one of these digits is \<open>0\<close>
  (as in \<open>#L0\<close>), and it is at least 1 in every other case. The statement does not
  depend on the value of a number that is not 0, and so not on how the host rounds one
  that is beyond \<open>2^53\<close>: such a number is not 0 either.
\<close>

theorem fromLine_zero_only_for_zero_digits:
  assumes "parse_fileMeta m = Inr r" and "fromLine r \<noteq> None"
  shows "\<exists>ds rest.
           m = ''file='' @ filePath r @ ''#L'' @ ds @ rest
         \<and> ds \<noteq> [] \<and> list_all is_digit ds \<and> (rest \<noteq> [] \<longrightarrow> \<not> is_digit (hd rest))
         \<and> (fromLine r = Some 0 \<longleftrightarrow> list_all (\<lambda>c. c = CHR ''0'') ds)
         \<and> (\<not> list_all (\<lambda>c. c = CHR ''0'') ds \<longrightarrow> (\<exists>n. 1 \<le> n \<and> fromLine r = Some n))"
proof -
  from assms(1) have pre: "prefix ''file='' m"
    by (simp add: parse_fileMeta_closed split: if_splits)
  then have m: "m = ''file='' @ drop 5 m"
    by (auto simp: prefix_def)
  from assms(1) pre obtain p f d t where s: "split_ref [] (drop 5 m) = Some (p, f, d, t)"
    and r: "r = \<lparr>filePath = p, fromLine = map_option parseInt10 f,
                  hasDash = (d \<noteq> None \<or> f = None), toLine = map_option parseInt10 t\<rparr>"
    by (auto simp: parse_fileMeta_closed split: option.splits)
  from split_ref_decomp [OF s] obtain u where u: "drop 5 m = p @ u"
    and g: "tail_groups u = Some (f, d, t)" by auto
  from assms(2) r have "f \<noteq> None" by auto
  with tail_groups_Some [OF g] obtain ds rest where f: "f = Some ds" and ds: "ds \<noteq> []" "list_all is_digit ds"
    and u': "u = ''#L'' @ ds @ rest" and rest: "rest \<noteq> [] \<longrightarrow> \<not> is_digit (hd rest)"
    by auto
  have v: "fromLine r = Some (parseInt10 ds)" by (simp add: r f)
  have "m = ''file='' @ p @ ''#L'' @ ds @ rest"
    using m u u' by simp
  then have 1: "m = ''file='' @ filePath r @ ''#L'' @ ds @ rest" by (simp add: r)
  have 2: "fromLine r = Some 0 \<longleftrightarrow> list_all (\<lambda>c. c = CHR ''0'') ds"
    using parseInt10_zero_iff [OF ds(2)] by (simp add: v)
  have 3: "\<not> list_all (\<lambda>c. c = CHR ''0'') ds \<longrightarrow> (\<exists>n. 1 \<le> n \<and> fromLine r = Some n)"
  proof
    assume "\<not> list_all (\<lambda>c. c = CHR ''0'') ds"
    then have "parseInt10 ds \<noteq> 0" using parseInt10_zero_iff [OF ds(2)] by simp
    then have "1 \<le> parseInt10 ds" by simp
    with v show "\<exists>n. 1 \<le> n \<and> fromLine r = Some n" by blast
  qed
  from 1 ds rest 2 3 show ?thesis by blast
qed

theorem fromLine_zero_only_for_zero_digits_witness:
  "parse_fileMeta ''file=a#L00-L3'' =
     Inr \<lparr>filePath = ''a'', fromLine = Some 0, hasDash = True, toLine = Some 3\<rparr>
   \<and> (\<exists>ds rest.
         ''file=a#L00-L3'' = ''file='' @ ''a'' @ ''#L'' @ ds @ rest
       \<and> ds \<noteq> [] \<and> list_all is_digit ds \<and> (rest \<noteq> [] \<longrightarrow> \<not> is_digit (hd rest))
       \<and> list_all (\<lambda>c. c = CHR ''0'') ds)"
proof -
  have p: "parse_fileMeta ''file=a#L00-L3'' =
     Inr \<lparr>filePath = ''a'', fromLine = Some 0, hasDash = True, toLine = Some 3\<rparr>"
    by code_simp
  from fromLine_zero_only_for_zero_digits [OF p] p show ?thesis
    by simp
qed

text \<open>The annotation \<open>file=a#L0\<close> yields a reference whose \<open>fromLine\<close> is 0.\<close>

theorem fromLine_zero_counterexample:
  "parse_fileMeta ''file=a#L0'' =
     Inr \<lparr>filePath = ''a'', fromLine = Some 0, hasDash = False, toLine = None\<rparr>"
  by code_simp

section \<open>Slices, splits and joins\<close>

lemma js_slice_nat: "js_slice xs (int b) (int e) = take (e - b) (drop b xs)"
proof -
  define n where "n = length xs"
  have k: "min (int b) (int n) = int (min b n)" and f: "min (int e) (int n) = int (min e n)"
    by simp_all
  have d: "nat (int (min e n) - int (min b n)) = min e n - min b n"
    by (simp add: nat_diff_distrib')
  have "js_slice xs (int b) (int e) = take (min e n - min b n) (drop (min b n) xs)"
    unfolding js_slice_def Let_def n_def [symmetric] by (simp only: k f d of_nat_less_0_iff if_False nat_int)
  also have "\<dots> = take (e - b) (drop b xs)"
  proof (cases "b \<le> n")
    case True
    then have "min b n = b" by simp
    moreover have "take (min e n - b) (drop b xs) = take (e - b) (drop b xs)"
    proof (cases "e \<le> n")
      case True
      then show ?thesis by simp
    next
      case False
      then have "length (drop b xs) \<le> min e n - b" "length (drop b xs) \<le> e - b"
        by (simp_all add: n_def)
      then show ?thesis by simp
    qed
    ultimately show ?thesis by simp
  next
    case False
    then show ?thesis by (simp add: n_def)
  qed
  finally show ?thesis .
qed

lemma start_line_pos: "1 \<le> start_line f"
  by (simp add: start_line_def split: option.splits)

lemma start_line_Some: "1 \<le> n \<Longrightarrow> start_line (Some n) = n"
  by (simp add: start_line_def)

lemma end_line_nat:
  "end_line ls s d t p =
     int (if \<not> d then s
          else if t \<noteq> None \<and> t \<noteq> Some 0 then the t
          else if (ls \<noteq> [] \<and> last ls = []) \<and> \<not> p then length ls - 1
          else length ls)"
  by (cases ls) (auto simp: end_line_def)

lemma selected_lines_nat:
  "selected_lines eol content f d t p =
     (let ls = js_split eol content; s = start_line f;
          e = (if \<not> d then s
               else if t \<noteq> None \<and> t \<noteq> Some 0 then the t
               else if (ls \<noteq> [] \<and> last ls = []) \<and> \<not> p then length ls - 1
               else length ls)
      in take (e - (s - 1)) (drop (s - 1) ls))"
proof -
  have "int (start_line f) - 1 = int (start_line f - 1)"
    using start_line_pos [of f] by simp
  then show ?thesis
    unfolding selected_lines_def Let_def end_line_nat by (simp only: js_slice_nat)
qed

lemma split_from_not_Nil: "split_from sep cur s \<noteq> []"
  by (induction sep cur s rule: split_from.induct) (subst split_from.simps, simp)

lemma js_join_Cons: "rest \<noteq> [] \<Longrightarrow> js_join sep (x # rest) = x @ sep @ js_join sep rest"
  by (cases rest) simp_all

lemma js_join_split_from: "sep \<noteq> [] \<Longrightarrow> js_join sep (split_from sep cur s) = cur @ s"
proof (induction sep cur s rule: split_from.induct)
  case (1 sep cur s)
  show ?case
  proof (cases "s = []")
    case True
    then show ?thesis by (subst split_from.simps) simp
  next
    case False
    show ?thesis
    proof (cases "prefix sep s")
      case True
      then have s: "s = sep @ drop (length sep) s"
        by (auto simp: prefix_def)
      have "js_join sep (split_from sep cur s) =
              js_join sep (cur # split_from sep [] (drop (length sep) s))"
        using False True "1.prems" by (subst split_from.simps) simp
      also have "\<dots> = cur @ sep @ js_join sep (split_from sep [] (drop (length sep) s))"
        by (rule js_join_Cons) (rule split_from_not_Nil)
      also have "\<dots> = cur @ sep @ drop (length sep) s"
        using "1.IH"(1) [OF False _ "1.prems"] True "1.prems" by simp
      finally show ?thesis using s by simp
    next
      case np: False
      have "js_join sep (split_from sep cur s) = js_join sep (split_from sep (cur @ [hd s]) (tl s))"
        using False np by (subst split_from.simps) simp
      also have "\<dots> = (cur @ [hd s]) @ tl s"
        using "1.IH"(2) [OF False _ "1.prems"] np by simp
      finally show ?thesis using False by simp
    qed
  qed
qed

lemma js_join_chars: "js_join [] (map (\<lambda>c. [c]) s) = s"
proof (induction s)
  case Nil
  show ?case by simp
next
  case (Cons c s)
  then show ?case by (cases s) simp_all
qed

lemma js_join_js_split: "js_join sep (js_split sep s) = s"
  by (simp add: js_split_def js_join_chars js_join_split_from)

lemma trailing_blank_snoc:
  "trailing_blank_lines (ls @ [l]) = (if l = [] then Suc (trailing_blank_lines ls) else 0)"
  by (simp add: trailing_blank_lines_def)

lemma trailing_blank_butlast:
  assumes "ls \<noteq> []" and "last ls = []"
  shows "trailing_blank_lines (butlast ls) = trailing_blank_lines ls - 1"
proof -
  from assms have "ls = butlast ls @ [[]]"
    by (metis append_butlast_last_id)
  then have "trailing_blank_lines ls = Suc (trailing_blank_lines (butlast ls))"
    by (metis trailing_blank_snoc)
  then show ?thesis by simp
qed

lemma trailing_blank_zero_iff: "trailing_blank_lines ls = 0 \<longleftrightarrow> ls = [] \<or> last ls \<noteq> []"
proof (cases ls rule: rev_cases)
  case Nil
  then show ?thesis by (simp add: trailing_blank_lines_def)
next
  case (snoc xs x)
  then show ?thesis by (simp add: trailing_blank_snoc)
qed

lemma whole_file_lines:
  "selected_lines eol content None True None p =
     (if trailing_blank_lines (js_split eol content) = 0 \<or> p then js_split eol content
      else butlast (js_split eol content))"
proof -
  define ls where "ls = js_split eol content"
  have "selected_lines eol content None True None p =
          take (if (ls \<noteq> [] \<and> last ls = []) \<and> \<not> p then length ls - 1 else length ls) ls"
    by (simp add: selected_lines_nat start_line_def ls_def [symmetric] Let_def)
  also have "\<dots> = (if trailing_blank_lines ls = 0 \<or> p then ls else butlast ls)"
    by (simp add: trailing_blank_zero_iff butlast_conv_take)
  finally show ?thesis by (simp only: ls_def)
qed

lemma js_join_snoc: "bl \<noteq> [] \<Longrightarrow> js_join sep (bl @ [x]) = js_join sep bl @ sep @ x"
proof (induction bl)
  case Nil
  then show ?case by simp
next
  case (Cons b bl)
  then show ?case by (cases bl) simp_all
qed

lemma js_join_butlast_blank:
  assumes "ls \<noteq> []" and "last ls = []"
  shows "js_join [c] (butlast ls) = butlast (js_join [c] ls)"
proof (cases "butlast ls = []")
  case True
  then have "ls = [[]]" using assms by (metis append_butlast_last_id append_Nil)
  then show ?thesis by simp
next
  case False
  have "ls = butlast ls @ [[]]" using assms by (metis append_butlast_last_id)
  then have "js_join [c] ls = js_join [c] (butlast ls) @ [c] @ []"
    using js_join_snoc [OF False, of "[c]" "[]"] by simp
  then show ?thesis by (simp add: butlast_append)
qed

text \<open>
  C7. Extracting the whole file with \<open>preserveTrailingNewline\<close> set selects every line
  of the file, so the number of blank lines at its end is kept, and joining the lines
  with the file's own separator gives the file back; without the flag one blank line at
  the end, when there is one, is left out and nothing else. Where the host's separator
  is the line feed, the extraction with the flag is the file text itself, and the
  extraction without it is the file text without its last line feed.
\<close>

theorem whole_file_trailing_blank_lines:
  "selected_lines eol content None True None True = js_split eol content
   \<and> trailing_blank_lines (selected_lines eol content None True None True)
       = trailing_blank_lines (js_split eol content)
   \<and> js_join eol (selected_lines eol content None True None True) = content
   \<and> selected_lines eol content None True None False
       = (if trailing_blank_lines (js_split eol content) = 0 then js_split eol content
          else butlast (js_split eol content))
   \<and> trailing_blank_lines (selected_lines eol content None True None False)
       = trailing_blank_lines (js_split eol content) - 1
   \<and> extractLines eol content None True None b
       = js_join [CHR 0x0A] (selected_lines eol content None True None b)
   \<and> extractLines [CHR 0x0A] content None True None True = content
   \<and> extractLines [CHR 0x0A] content None True None False
       = (if trailing_blank_lines (js_split [CHR 0x0A] content) = 0 then content else butlast content)"
proof -
  have "trailing_blank_lines (selected_lines eol content None True None False)
          = trailing_blank_lines (js_split eol content) - 1"
  proof (cases "trailing_blank_lines (js_split eol content) = 0")
    case True
    then show ?thesis by (simp add: whole_file_lines)
  next
    case False
    then show ?thesis
      by (simp add: whole_file_lines trailing_blank_butlast trailing_blank_zero_iff)
  qed
  moreover have "extractLines [CHR 0x0A] content None True None True = content"
    by (simp add: extractLines_def whole_file_lines js_join_js_split)
  moreover have "extractLines [CHR 0x0A] content None True None False
       = (if trailing_blank_lines (js_split [CHR 0x0A] content) = 0 then content else butlast content)"
  proof (cases "trailing_blank_lines (js_split [CHR 0x0A] content) = 0")
    case True
    then show ?thesis by (simp add: extractLines_def whole_file_lines js_join_js_split)
  next
    case False
    then have "js_split [CHR 0x0A] content \<noteq> []" "last (js_split [CHR 0x0A] content) = []"
      by (simp_all add: trailing_blank_zero_iff)
    from js_join_butlast_blank [OF this, of "CHR 0x0A"] False show ?thesis
      by (simp add: extractLines_def whole_file_lines js_join_js_split)
  qed
  ultimately show ?thesis
    by (simp add: whole_file_lines js_join_js_split extractLines_def)
qed

theorem whole_file_trailing_blank_lines_witness:
  "trailing_blank_lines (js_split [CHR 0x0A] (''a'' @ [CHR 0x0A, CHR 0x0A])) = 2
   \<and> trailing_blank_lines (selected_lines [CHR 0x0A] (''a'' @ [CHR 0x0A, CHR 0x0A]) None True None True) = 2
   \<and> trailing_blank_lines (selected_lines [CHR 0x0A] (''a'' @ [CHR 0x0A, CHR 0x0A]) None True None False) = 1"
proof -
  have "trailing_blank_lines (js_split [CHR 0x0A] (''a'' @ [CHR 0x0A, CHR 0x0A])) = 2"
    by code_simp
  moreover note w = whole_file_trailing_blank_lines [of "[CHR 0x0A]" "''a'' @ [CHR 0x0A, CHR 0x0A]" False]
  moreover from w have "trailing_blank_lines (selected_lines [CHR 0x0A] (''a'' @ [CHR 0x0A, CHR 0x0A]) None True None True)
      = trailing_blank_lines (js_split [CHR 0x0A] (''a'' @ [CHR 0x0A, CHR 0x0A]))"
    by (elim conjE)
  moreover from w have "trailing_blank_lines (selected_lines [CHR 0x0A] (''a'' @ [CHR 0x0A, CHR 0x0A]) None True None False)
      = trailing_blank_lines (js_split [CHR 0x0A] (''a'' @ [CHR 0x0A, CHR 0x0A])) - 1"
    by (elim conjE)
  ultimately show ?thesis by (simp only:) simp
qed

lemma extract_single:
  assumes "1 \<le> n"
  shows "extractLines eol content (Some n) False t p =
           (if n \<le> length (js_split eol content) then js_split eol content ! (n - 1) else [])"
proof -
  define ls where "ls = js_split eol content"
  have "Suc (n - 1) = n" using assms by simp
  then have s: "selected_lines eol content (Some n) False t p = take 1 (drop (n - 1) ls)"
    using assms by (simp add: selected_lines_nat start_line_Some ls_def [symmetric] Let_def)
  show ?thesis
  proof (cases "n \<le> length ls")
    case True
    then have "n - 1 < length ls" using assms by simp
    then have "drop (n - 1) ls = ls ! (n - 1) # drop (Suc (n - 1)) ls"
      by (rule Cons_nth_drop_Suc [symmetric])
    with True show ?thesis
      by (simp add: extractLines_def s ls_def [symmetric])
  next
    case False
    then show ?thesis
      by (simp add: extractLines_def s ls_def [symmetric])
  qed
qed

lemma extract_open:
  assumes "1 \<le> n"
  shows "extractLines eol content (Some n) True None p =
           js_join [CHR 0x0A]
             (drop (n - 1) (if trailing_blank_lines (js_split eol content) = 0 \<or> p
                            then js_split eol content else butlast (js_split eol content)))"
proof -
  define ls where "ls = js_split eol content"
  have "selected_lines eol content (Some n) True None p =
          take ((if (ls \<noteq> [] \<and> last ls = []) \<and> \<not> p then length ls - 1 else length ls) - (n - 1))
            (drop (n - 1) ls)"
    using assms by (simp add: selected_lines_nat start_line_Some ls_def [symmetric] Let_def)
  also have "\<dots> = drop (n - 1) (take (if (ls \<noteq> [] \<and> last ls = []) \<and> \<not> p then length ls - 1 else length ls) ls)"
    by (simp only: drop_take)
  also have "take (if (ls \<noteq> [] \<and> last ls = []) \<and> \<not> p then length ls - 1 else length ls) ls
      = (if trailing_blank_lines ls = 0 \<or> p then ls else butlast ls)"
    by (simp add: trailing_blank_zero_iff butlast_conv_take)
  finally show ?thesis
    by (simp only: extractLines_def ls_def)
qed

lemma take_drop_as_lines:
  assumes "1 \<le> n"
  shows "take (m - (n - 1)) (drop (n - 1) ls) = map (\<lambda>i. ls ! (i - 1)) [n..<Suc (min m (length ls))]"
proof (rule nth_equalityI)
  show "length (take (m - (n - 1)) (drop (n - 1) ls)) =
        length (map (\<lambda>i. ls ! (i - 1)) [n..<Suc (min m (length ls))])"
    using assms by (simp add: min_def) linarith
next
  fix i
  assume "i < length (take (m - (n - 1)) (drop (n - 1) ls))"
  then have i: "i < m - (n - 1)" "i < length ls - (n - 1)" by simp_all
  then have "n + i < Suc (min m (length ls))" using assms by (simp add: min_def) linarith
  then have "i < length [n..<Suc (min m (length ls))]" and "[n..<Suc (min m (length ls))] ! i = n + i"
    by (simp_all del: upt_Suc)
  then have "map (\<lambda>i. ls ! (i - 1)) [n..<Suc (min m (length ls))] ! i = ls ! (n + i - 1)"
    by (simp only: nth_map)
  moreover have "take (m - (n - 1)) (drop (n - 1) ls) ! i = ls ! (n - 1 + i)"
    using i by simp
  moreover have "n - 1 + i = n + i - 1" using assms by simp
  ultimately show "take (m - (n - 1)) (drop (n - 1) ls) ! i =
        map (\<lambda>i. ls ! (i - 1)) [n..<Suc (min m (length ls))] ! i"
    by simp
qed

lemma extract_closed:
  assumes "1 \<le> n" and "1 \<le> m"
  shows "extractLines eol content (Some n) True (Some m) p =
           js_join [CHR 0x0A]
             (map (\<lambda>i. js_split eol content ! (i - 1)) [n..<Suc (min m (length (js_split eol content)))])"
proof -
  have "selected_lines eol content (Some n) True (Some m) p =
          take (m - (n - 1)) (drop (n - 1) (js_split eol content))"
    using assms by (simp add: selected_lines_nat start_line_Some Let_def)
  then show ?thesis
    by (simp only: extractLines_def take_drop_as_lines [OF assms(1)])
qed

lemma not_digit_dash: "\<not> is_digit (CHR ''-'')"
  by (simp add: is_digit_def)

lemma parse_forms:
  assumes p: "p \<noteq> []" "list_all (\<lambda>c. \<not> is_line_terminator c) p"
    and ds: "ds \<noteq> []" "list_all is_digit ds"
  shows "parse_fileMeta (''file='' @ p @ ''#L'' @ ds) =
           Inr \<lparr>filePath = p, fromLine = Some (parseInt10 ds), hasDash = False, toLine = None\<rparr>"
    and "parse_fileMeta (''file='' @ p @ ''#L'' @ ds @ ''-'') =
           Inr \<lparr>filePath = p, fromLine = Some (parseInt10 ds), hasDash = True, toLine = None\<rparr>"
    and "es \<noteq> [] \<Longrightarrow> list_all is_digit es \<Longrightarrow>
         parse_fileMeta (''file='' @ p @ ''#L'' @ ds @ ''-L'' @ es) =
           Inr \<lparr>filePath = p, fromLine = Some (parseInt10 ds), hasDash = True,
                toLine = Some (parseInt10 es)\<rparr>"
proof -
  have "tail_groups (''#L'' @ ds @ []) = map_option (Pair (Some ds)) (dash_to [])"
    by (rule tail_groups_from) (simp_all add: ds)
  then have t1: "tail_groups (''#L'' @ ds) = Some (Some ds, None, None)"
    by (simp add: dash_to_def)
  have "parse_fileMeta (''file='' @ p @ (''#L'' @ ds)) =
          Inr \<lparr>filePath = p, fromLine = map_option parseInt10 (Some ds),
               hasDash = (None \<noteq> (None :: string option) \<or> Some ds = None),
               toLine = map_option parseInt10 None\<rparr>"
    by (rule parse_section [OF t1 _ p]) simp
  then show "parse_fileMeta (''file='' @ p @ ''#L'' @ ds) =
           Inr \<lparr>filePath = p, fromLine = Some (parseInt10 ds), hasDash = False, toLine = None\<rparr>"
    by simp
  have "tail_groups (''#L'' @ ds @ ''-'') = map_option (Pair (Some ds)) (dash_to ''-'')"
    by (rule tail_groups_from) (simp_all add: ds not_digit_dash)
  then have t2: "tail_groups (''#L'' @ ds @ ''-'') = Some (Some ds, Some ''-'', None)"
    by (simp add: dash_to_def to_part_def)
  have "parse_fileMeta (''file='' @ p @ (''#L'' @ ds @ ''-'')) =
          Inr \<lparr>filePath = p, fromLine = map_option parseInt10 (Some ds),
               hasDash = (Some ''-'' \<noteq> None \<or> Some ds = None),
               toLine = map_option parseInt10 None\<rparr>"
    by (rule parse_section [OF t2 _ p]) simp
  then show "parse_fileMeta (''file='' @ p @ ''#L'' @ ds @ ''-'') =
           Inr \<lparr>filePath = p, fromLine = Some (parseInt10 ds), hasDash = True, toLine = None\<rparr>"
    by simp
  show "parse_fileMeta (''file='' @ p @ ''#L'' @ ds @ ''-L'' @ es) =
           Inr \<lparr>filePath = p, fromLine = Some (parseInt10 ds), hasDash = True,
                toLine = Some (parseInt10 es)\<rparr>"
    if es: "es \<noteq> []" "list_all is_digit es"
  proof -
    have "tail_groups (''#L'' @ ds @ ''-L'' @ es) = map_option (Pair (Some ds)) (dash_to (''-L'' @ es))"
      by (rule tail_groups_from) (simp_all add: ds not_digit_dash)
    then have t3: "tail_groups (''#L'' @ ds @ ''-L'' @ es) = Some (Some ds, Some ''-'', Some es)"
      by (simp add: dash_to_def to_part_def es)
    have "parse_fileMeta (''file='' @ p @ (''#L'' @ ds @ ''-L'' @ es)) =
          Inr \<lparr>filePath = p, fromLine = map_option parseInt10 (Some ds),
               hasDash = (Some ''-'' \<noteq> None \<or> Some ds = None),
               toLine = map_option parseInt10 (Some es)\<rparr>"
      by (rule parse_section [OF t3 _ p]) simp
    then show ?thesis by simp
  qed
qed

section \<open>Claims on the line extractor\<close>

text \<open>
  C6, as corrected. Extraction is a total function: no line number makes it fail. A
  first line beyond the line count of the file selects nothing, whatever the rest of the
  selection. A last line before the first line selects nothing when the selection is a
  range and the last line is at least 1. The claim has the result empty whenever
  \<open>toLine < fromLine\<close>; a last line 0 is taken as absent, and a last line without dash
  is ignored.
\<close>

theorem out_of_range_selects_nothing:
  "(length (js_split eol content) < f \<longrightarrow> extractLines eol content (Some f) d t p = [])
   \<and> (1 \<le> l \<and> l < f \<longrightarrow> extractLines eol content (Some f) True (Some l) p = [])"
proof
  show "length (js_split eol content) < f \<longrightarrow> extractLines eol content (Some f) d t p = []"
  proof
    assume a: "length (js_split eol content) < f"
    then have "start_line (Some f) = f" by (simp add: start_line_def)
    moreover have "drop (f - 1) (js_split eol content) = []" using a by simp
    ultimately show "extractLines eol content (Some f) d t p = []"
      by (simp add: extractLines_def selected_lines_nat Let_def)
  qed
next
  show "1 \<le> l \<and> l < f \<longrightarrow> extractLines eol content (Some f) True (Some l) p = []"
  proof
    assume a: "1 \<le> l \<and> l < f"
    then have "start_line (Some f) = f" by (simp add: start_line_def)
    moreover have "l - (f - 1) = 0" using a by simp
    ultimately show "extractLines eol content (Some f) True (Some l) p = []"
      using a by (simp add: extractLines_def selected_lines_nat Let_def)
  qed
qed

theorem out_of_range_selects_nothing_witness:
  "length (js_split [CHR 0x0A] fixture_text) < 9
   \<and> extractLines [CHR 0x0A] fixture_text (Some 9) False None False = []
   \<and> extractLines [CHR 0x0A] fixture_text (Some 3) True (Some 2) False = []"
proof -
  have "length (js_split [CHR 0x0A] fixture_text) < 9" by code_simp
  with out_of_range_selects_nothing [of "[CHR 0x0A]" fixture_text 9 False None False 2]
    out_of_range_selects_nothing [of "[CHR 0x0A]" fixture_text 3 True "Some 2" False 2]
  show ?thesis by simp
qed

text \<open>The last line 0 is before the first line 2, and the lines 2 to 4 are selected.\<close>

theorem last_line_before_first_counterexample:
  "extractLines [CHR 0x0A] fixture_text (Some 2) True (Some 0) False =
     ''line2'' @ [CHR 0x0A] @ ''  line3'' @ [CHR 0x0A] @ ''  line4''"
  by code_simp

text \<open>
  C1, as corrected. For a non-empty path \<open>p\<close> without line terminator and line numbers
  \<open>n\<close> and \<open>m\<close> that are at least 1 (the values of the non-empty digit strings \<open>ds\<close>
  and \<open>es\<close>), the parser and the extractor realise the four forms:
  \<^item> \<open>file=p\<close>, where no proper suffix of \<open>p\<close> is a \<open>#\<close> section, is a range without
    first and last line and yields the whole file: all its lines, without the blank line
    at the end unless \<open>preserveTrailingNewline\<close> is set;
  \<^item> \<open>file=p#L<n>\<close> is no range and yields exactly line \<open>n\<close>, nothing when the file
    has fewer lines;
  \<^item> \<open>file=p#L<n>-\<close> yields the lines of the whole file from line \<open>n\<close> on;
  \<^item> \<open>file=p#L<n>-L<m>\<close> yields the lines \<open>n\<close> to \<open>m\<close> that the file has, joined with
    a line feed.
  The claim has this for every line number; a line number 0 is taken as absent.
\<close>

theorem line_spec_forms:
  assumes "p \<noteq> []" and "list_all (\<lambda>c. \<not> is_line_terminator c) p"
    and "ds \<noteq> []" and "list_all is_digit ds" and "1 \<le> parseInt10 ds"
    and "es \<noteq> []" and "list_all is_digit es" and "1 \<le> parseInt10 es"
  shows
    "(\<not> has_section p \<longrightarrow>
        parse_fileMeta (''file='' @ p) =
          Inr \<lparr>filePath = p, fromLine = None, hasDash = True, toLine = None\<rparr>)
     \<and> extractLines eol content None True None pres =
         js_join [CHR 0x0A]
           (if trailing_blank_lines (js_split eol content) = 0 \<or> pres
            then js_split eol content else butlast (js_split eol content))
     \<and> parse_fileMeta (''file='' @ p @ ''#L'' @ ds) =
         Inr \<lparr>filePath = p, fromLine = Some (parseInt10 ds), hasDash = False, toLine = None\<rparr>
     \<and> extractLines eol content (Some (parseInt10 ds)) False None pres =
         (if parseInt10 ds \<le> length (js_split eol content)
          then js_split eol content ! (parseInt10 ds - 1) else [])
     \<and> parse_fileMeta (''file='' @ p @ ''#L'' @ ds @ ''-'') =
         Inr \<lparr>filePath = p, fromLine = Some (parseInt10 ds), hasDash = True, toLine = None\<rparr>
     \<and> extractLines eol content (Some (parseInt10 ds)) True None pres =
         js_join [CHR 0x0A]
           (drop (parseInt10 ds - 1)
              (if trailing_blank_lines (js_split eol content) = 0 \<or> pres
               then js_split eol content else butlast (js_split eol content)))
     \<and> parse_fileMeta (''file='' @ p @ ''#L'' @ ds @ ''-L'' @ es) =
         Inr \<lparr>filePath = p, fromLine = Some (parseInt10 ds), hasDash = True,
              toLine = Some (parseInt10 es)\<rparr>
     \<and> extractLines eol content (Some (parseInt10 ds)) True (Some (parseInt10 es)) pres =
         js_join [CHR 0x0A]
           (map (\<lambda>i. js_split eol content ! (i - 1))
              [parseInt10 ds..<Suc (min (parseInt10 es) (length (js_split eol content)))])"
proof -
  have 1: "\<not> has_section p \<longrightarrow>
        parse_fileMeta (''file='' @ p) =
          Inr \<lparr>filePath = p, fromLine = None, hasDash = True, toLine = None\<rparr>"
    using parse_whole [OF assms(1,2)] by blast
  have 2: "extractLines eol content None True None pres =
         js_join [CHR 0x0A]
           (if trailing_blank_lines (js_split eol content) = 0 \<or> pres
            then js_split eol content else butlast (js_split eol content))"
    by (simp only: extractLines_def whole_file_lines)
  note 3 = parse_forms(1) [OF assms(1,2,3,4)]
  note 4 = extract_single [OF assms(5), of eol content None pres]
  note 5 = parse_forms(2) [OF assms(1,2,3,4)]
  note 6 = extract_open [OF assms(5), of eol content pres]
  note 7 = parse_forms(3) [OF assms(1,2,3,4,6,7)]
  note 8 = extract_closed [OF assms(5,8), of eol content pres]
  from 1 2 3 4 5 6 7 8 show ?thesis by (intro conjI)
qed

theorem line_spec_forms_witness:
  "parse_fileMeta ''file=./say-#-hi.js'' =
     Inr \<lparr>filePath = ''./say-#-hi.js'', fromLine = None, hasDash = True, toLine = None\<rparr>
   \<and> parse_fileMeta ''file=./say-#-hi.js#L2'' =
       Inr \<lparr>filePath = ''./say-#-hi.js'', fromLine = Some 2, hasDash = False, toLine = None\<rparr>
   \<and> parse_fileMeta ''file=./say-#-hi.js#L2-'' =
       Inr \<lparr>filePath = ''./say-#-hi.js'', fromLine = Some 2, hasDash = True, toLine = None\<rparr>
   \<and> parse_fileMeta ''file=./say-#-hi.js#L2-L3'' =
       Inr \<lparr>filePath = ''./say-#-hi.js'', fromLine = Some 2, hasDash = True, toLine = Some 3\<rparr>
   \<and> extractLines [CHR 0x0A] fixture_text (Some 2) True (Some 3) False =
       js_join [CHR 0x0A]
         (map (\<lambda>i. js_split [CHR 0x0A] fixture_text ! (i - 1))
            [2..<Suc (min 3 (length (js_split [CHR 0x0A] fixture_text)))])"
proof -
  have p: "''./say-#-hi.js'' \<noteq> []" "list_all (\<lambda>c. \<not> is_line_terminator c) ''./say-#-hi.js''"
    by (simp_all add: is_line_terminator_def)
  have ds: "''2'' \<noteq> []" "list_all is_digit ''2''" "1 \<le> parseInt10 ''2''"
    by (simp_all add: is_digit_def parseInt10_def)
  have es: "''3'' \<noteq> []" "list_all is_digit ''3''" "1 \<le> parseInt10 ''3''"
    by (simp_all add: is_digit_def parseInt10_def)
  have n: "\<not> has_section ''./say-#-hi.js''"
    by code_simp
  have v: "parseInt10 ''2'' = 2" "parseInt10 ''3'' = 3"
    by (simp_all add: is_digit_def parseInt10_def)
  from line_spec_forms [OF p ds es, of "[CHR 0x0A]" fixture_text False] n
  show ?thesis
    unfolding v by simp
qed

text \<open>
  The annotation \<open>file=f.js#L2-L0\<close> parses, with last line 0, and the block receives the
  lines 2 to 4 of the file, not the lines from 2 to 0.
\<close>

theorem line_spec_forms_counterexample:
  "parse_fileMeta ''file=f.js#L2-L0'' =
     Inr \<lparr>filePath = ''f.js'', fromLine = Some 2, hasDash = True, toLine = Some 0\<rparr>
   \<and> codeImport (fixture_env (\<lambda>p. if p = ''/w/f.js'' then Some fixture_text else None))
        default_options fixture_file [code_block ''file=f.js#L2-L0'']
      = Inr [(code_block ''file=f.js#L2-L0'')
               \<lparr>node_value := ''line2'' @ [CHR 0x0A] @ ''  line3'' @ [CHR 0x0A] @ ''  line4''\<rparr>]"
  by code_simp

section \<open>Claims on the transformer\<close>

lemma plan_all_nodes:
  "plan_all e opts root file codes = Inr js \<Longrightarrow>
     list_all2 (\<lambda>node j. plan_node e opts root file node = Inr j) codes js"
proof (induction codes arbitrary: js)
  case Nil
  then show ?case by simp
next
  case (Cons node codes)
  then show ?case by (auto split: sum.splits)
qed

lemma run_all_nodes:
  "length js = length codes \<Longrightarrow> run_all e opts codes js = Inr codes' \<Longrightarrow>
     list_all2 (\<lambda>(node, j) node'. run_job e opts node j = Inr node') (zip codes js) codes'"
proof (induction codes arbitrary: js codes')
  case Nil
  then show ?case by simp
next
  case (Cons node codes)
  then show ?case by (cases js) (auto split: sum.splits)
qed

text \<open>What a successful transformation does to each code block.\<close>

lemma transformer_nodes:
  assumes "codeImport e opts file codes = Inr codes'"
  shows "length codes' = length codes"
    and "i < length codes \<Longrightarrow>
           \<exists>j. plan_node e opts (root_of e opts) file (codes ! i) = Inr j
               \<and> run_job e opts (codes ! i) j = Inr (codes' ! i)"
proof -
  from assms obtain js where p: "plan_all e opts (root_of e opts) file codes = Inr js"
    and r: "run_all e opts codes js = Inr codes'"
    by (auto simp: codeImport_def transformer_def split: if_splits sum.splits)
  note a = plan_all_nodes [OF p]
  then have l: "length js = length codes" by (simp add: list_all2_lengthD)
  note b = run_all_nodes [OF l r]
  from b l show "length codes' = length codes"
    by (auto dest: list_all2_lengthD)
  show "\<exists>j. plan_node e opts (root_of e opts) file (codes ! i) = Inr j
               \<and> run_job e opts (codes ! i) j = Inr (codes' ! i)" if i: "i < length codes"
  proof -
    from a i have "plan_node e opts (root_of e opts) file (codes ! i) = Inr (js ! i)"
      by (simp add: list_all2_conv_all_nth)
    moreover from b i l have "run_job e opts (codes ! i) (js ! i) = Inr (codes' ! i)"
      by (auto simp: list_all2_conv_all_nth)
    ultimately show ?thesis by blast
  qed
qed

lemma run_job_frame: "run_job e opts node j = Inr node' \<Longrightarrow> node' = node\<lparr>node_value := node_value node'\<rparr>"
  by (auto simp: run_job_def Let_def split: option.splits job.splits)

lemma find_fileMeta_None_iff:
  "find_fileMeta meta = None \<longleftrightarrow> list_all (\<lambda>tok. \<not> prefix ''file='' tok) (meta_tokens meta)"
  by (auto simp: find_fileMeta_def find_None_iff list_all_iff)

text \<open>
  C10. When the transformation succeeds, the document has the same code blocks in the same
  order; every block keeps all its fields but its value, and a block whose metadata has
  no token that starts with \<open>file=\<close> is unchanged as a whole.
\<close>

theorem blocks_without_annotation_unchanged:
  assumes "codeImport e opts file codes = Inr codes'"
  shows "length codes' = length codes
       \<and> (\<forall>i<length codes.
             codes' ! i = (codes ! i)\<lparr>node_value := node_value (codes' ! i)\<rparr>
             \<and> (list_all (\<lambda>tok. \<not> prefix ''file='' tok) (meta_tokens (node_meta (codes ! i)))
                  \<longrightarrow> codes' ! i = codes ! i))"
proof (intro conjI allI impI)
  show "length codes' = length codes" by (rule transformer_nodes(1) [OF assms])
next
  fix i assume i: "i < length codes"
  from transformer_nodes(2) [OF assms i] obtain j where
    p: "plan_node e opts (root_of e opts) file (codes ! i) = Inr j"
    and r: "run_job e opts (codes ! i) j = Inr (codes' ! i)" by blast
  from r show "codes' ! i = (codes ! i)\<lparr>node_value := node_value (codes' ! i)\<rparr>"
    by (rule run_job_frame)
  assume "list_all (\<lambda>tok. \<not> prefix ''file='' tok) (meta_tokens (node_meta (codes ! i)))"
  then have "find_fileMeta (node_meta (codes ! i)) = None"
    by (simp only: find_fileMeta_None_iff)
  with p have "j = None" by (simp add: plan_node_def)
  with r show "codes' ! i = codes ! i" by (simp add: run_job_def)
qed

theorem blocks_without_annotation_unchanged_witness:
  "codeImport (fixture_env (\<lambda>p. if p = ''/w/f.js'' then Some fixture_text else None))
      default_options fixture_file [code_block ''title=x'', code_block ''file=f.js#L1'']
    = Inr [code_block ''title=x'', (code_block ''file=f.js#L1'')\<lparr>node_value := ''Hello''\<rparr>]
   \<and> list_all (\<lambda>tok. \<not> prefix ''file='' tok) (meta_tokens (node_meta (code_block ''title=x'')))
   \<and> length [code_block ''title=x'', (code_block ''file=f.js#L1'')\<lparr>node_value := ''Hello''\<rparr>]
       = length [code_block ''title=x'', code_block ''file=f.js#L1'']"
proof -
  have c: "codeImport (fixture_env (\<lambda>p. if p = ''/w/f.js'' then Some fixture_text else None))
      default_options fixture_file [code_block ''title=x'', code_block ''file=f.js#L1'']
    = Inr [code_block ''title=x'', (code_block ''file=f.js#L1'')\<lparr>node_value := ''Hello''\<rparr>]"
    by code_simp
  have t: "list_all (\<lambda>tok. \<not> prefix ''file='' tok) (meta_tokens (node_meta (code_block ''title=x'')))"
    by code_simp
  from blocks_without_annotation_unchanged [OF c]
  have "length [code_block ''title=x'', (code_block ''file=f.js#L1'')\<lparr>node_value := ''Hello''\<rparr>]
       = length [code_block ''title=x'', code_block ''file=f.js#L1'']"
    by (rule conjunct1)
  with c t show ?thesis by (intro conjI)
qed

text \<open>
  C5, as corrected. The claim has the indentation stripped from whole-file extractions
  only. The transformer has no such condition: when the transformation succeeds, the
  value of every annotated block is the extraction of its file for the parsed line
  selection, stripped when \<open>removeRedundantIndentations\<close> is set and as extracted when it
  is not, whatever the line selection.
\<close>

theorem strip_applies_to_every_extraction:
  assumes "codeImport e opts file codes = Inr codes'"
    and "i < length codes"
    and "find_fileMeta (node_meta (codes ! i)) = Some fileMeta"
  shows "\<exists>r fileAbsPath fileContent.
           parse_fileMeta fileMeta = Inr r
         \<and> resolve_import e opts (root_of e opts) (the (dirname file)) (filePath r) = Inr fileAbsPath
         \<and> readFile e fileAbsPath = Some fileContent
         \<and> node_value (codes' ! i) =
             (if removeRedundantIndentations opts
              then stripIndent e (extractLines (env_EOL e) fileContent (fromLine r) (hasDash r)
                                    (toLine r) (preserveTrailingNewline opts))
              else extractLines (env_EOL e) fileContent (fromLine r) (hasDash r)
                     (toLine r) (preserveTrailingNewline opts))"
proof -
  from transformer_nodes(2) [OF assms(1,2)] obtain j where
    p: "plan_node e opts (root_of e opts) file (codes ! i) = Inr j"
    and r: "run_job e opts (codes ! i) j = Inr (codes' ! i)" by blast
  have "fileMeta \<noteq> []"
    using assms(3) by (auto simp: find_fileMeta_def find_Some_iff)
  with p assms(3) obtain r' a where
    q: "parse_fileMeta fileMeta = Inr r'"
    and a: "resolve_import e opts (root_of e opts) (the (dirname file)) (filePath r') = Inr a"
    and j: "j = Some (Import a (fromLine r') (hasDash r') (toLine r'))"
    by (auto simp: plan_node_def split: if_splits sum.splits)
  from r j obtain c where c: "readFile e a = Some c"
    and v: "codes' ! i = (codes ! i)\<lparr>node_value :=
        (if removeRedundantIndentations opts
         then stripIndent e (extractLines (env_EOL e) c (fromLine r') (hasDash r') (toLine r')
                (preserveTrailingNewline opts))
         else extractLines (env_EOL e) c (fromLine r') (hasDash r') (toLine r')
                (preserveTrailingNewline opts))\<rparr>"
    by (auto simp: run_job_def Let_def split: option.splits)
  from v have "node_value (codes' ! i) =
        (if removeRedundantIndentations opts
         then stripIndent e (extractLines (env_EOL e) c (fromLine r') (hasDash r') (toLine r')
                (preserveTrailingNewline opts))
         else extractLines (env_EOL e) c (fromLine r') (hasDash r') (toLine r')
                (preserveTrailingNewline opts))"
    by simp
  with q a c show ?thesis by blast
qed

theorem strip_applies_to_every_extraction_witness:
  "\<exists>r fileAbsPath fileContent.
       parse_fileMeta ''file=f.js#L3-L4'' = Inr r
     \<and> resolve_import (fixture_env (\<lambda>p. if p = ''/w/f.js'' then Some fixture_text else None))
          (default_options\<lparr>removeRedundantIndentations := True\<rparr>)
          (root_of (fixture_env (\<lambda>p. if p = ''/w/f.js'' then Some fixture_text else None))
             (default_options\<lparr>removeRedundantIndentations := True\<rparr>))
          (the (dirname fixture_file)) (filePath r) = Inr fileAbsPath
     \<and> readFile (fixture_env (\<lambda>p. if p = ''/w/f.js'' then Some fixture_text else None)) fileAbsPath
          = Some fileContent
     \<and> ''line3'' @ [CHR 0x0A] @ ''line4'' =
          strip_indent (extractLines [CHR 0x0A] fileContent (fromLine r) (hasDash r) (toLine r) False)"
proof -
  have c: "codeImport (fixture_env (\<lambda>p. if p = ''/w/f.js'' then Some fixture_text else None))
      (default_options\<lparr>removeRedundantIndentations := True\<rparr>) fixture_file
      [code_block ''file=f.js#L3-L4'']
    = Inr [(code_block ''file=f.js#L3-L4'')\<lparr>node_value := ''line3'' @ [CHR 0x0A] @ ''line4''\<rparr>]"
    by code_simp
  have f: "find_fileMeta (node_meta ([code_block ''file=f.js#L3-L4''] ! 0)) = Some ''file=f.js#L3-L4''"
    by code_simp
  from strip_applies_to_every_extraction [OF c _ f] show ?thesis
    by (simp add: fixture_env_def default_options_def)
qed

text \<open>
  With \<open>removeRedundantIndentations\<close> set, the lines 3 and 4 of the file, which are
  indented by two spaces, reach the block without their indentation.
\<close>

theorem strip_on_line_spec_counterexample:
  "extractLines [CHR 0x0A] fixture_text (Some 3) True (Some 4) False
     = ''  line3'' @ [CHR 0x0A] @ ''  line4''
   \<and> codeImport (fixture_env (\<lambda>p. if p = ''/w/f.js'' then Some fixture_text else None))
        (default_options\<lparr>removeRedundantIndentations := True\<rparr>) fixture_file
        [code_block ''file=f.js#L3-L4'']
      = Inr [(code_block ''file=f.js#L3-L4'')\<lparr>node_value := ''line3'' @ [CHR 0x0A] @ ''line4''\<rparr>]"
  by code_simp

section \<open>The containment check\<close>

lemma split_from_no_sep:
  "c \<notin> set cur \<Longrightarrow> \<forall>x\<in>set (split_from [c] cur s). c \<notin> set x"
proof (induction "[c]" cur s rule: split_from.induct)
  case (1 cur s)
  show ?case
  proof (cases "s = []")
    case True
    with "1.prems" show ?thesis by (subst split_from.simps) simp
  next
    case False
    show ?thesis
    proof (cases "prefix [c] s")
      case True
      with False "1.hyps"(1) "1.prems" show ?thesis
        by (subst split_from.simps) simp
    next
      case np: False
      then have "hd s \<noteq> c" using False by (cases s) auto
      with False np "1.hyps"(2) "1.prems" show ?thesis
        by (subst split_from.simps) simp
    qed
  qed
qed

lemma js_split_no_sep: "\<forall>x\<in>set (js_split [c] s). c \<notin> set x"
  using split_from_no_sep [of c "[]" s] by (simp add: js_split_def)

lemma normalize_segs_good:
  "list_all good_seg acc \<Longrightarrow> \<forall>x\<in>set ss. CHR ''/'' \<notin> set x \<Longrightarrow>
     list_all good_seg (normalize_segs acc ss)"
proof (induction ss arbitrary: acc)
  case Nil
  then show ?case by simp
next
  case (Cons s ss)
  have "list_all good_seg (butlast acc)"
    using Cons.prems(1) by (auto simp: list_all_iff dest: in_set_butlastD)
  moreover have "s \<noteq> [] \<Longrightarrow> s \<noteq> ''.'' \<Longrightarrow> s \<noteq> ''..'' \<Longrightarrow> list_all good_seg (acc @ [s])"
    using Cons.prems by (auto simp: list_all_iff good_seg_def)
  ultimately show ?case
    using Cons.IH Cons.prems by simp
qed

lemma resolve_segs_good: "list_all good_seg (resolve_segs cwd args)"
  unfolding resolve_segs_def
  by (rule normalize_segs_good) (simp_all add: js_split_no_sep)

lemma good_seg_start:
  assumes "good_seg x"
  shows "\<not> prefix ''../'' (x @ r)" and "hd (x @ r) \<noteq> CHR ''/''"
proof -
  from assms obtain a x' where x: "x = a # x'" by (cases x) (auto simp: good_seg_def)
  show "hd (x @ r) \<noteq> CHR ''/''" using assms by (auto simp: x good_seg_def)
  show "\<not> prefix ''../'' (x @ r)"
  proof (cases x')
    case Nil
    with assms show ?thesis by (auto simp: x good_seg_def)
  next
    case (Cons b x'')
    show ?thesis
    proof (cases x'')
      case Nil
      with assms Cons show ?thesis by (auto simp: x good_seg_def)
    next
      case c: (Cons d x''')
      with assms Cons show ?thesis by (auto simp: x good_seg_def)
    qed
  qed
qed

lemma js_join_good_start:
  assumes "list_all good_seg ts"
  shows "\<not> prefix ''../'' (js_join ''/'' ts) \<and> \<not> path_isAbsolute (js_join ''/'' ts)"
proof (cases ts)
  case Nil
  then show ?thesis by (simp add: path_isAbsolute_def)
next
  case (Cons x rest)
  then have g: "good_seg x" using assms by simp
  obtain r where "js_join ''/'' ts = x @ r"
    unfolding Cons by (cases rest) auto
  with good_seg_start [OF g, of r] g show ?thesis
    by (auto simp: path_isAbsolute_def)
qed

lemma js_join_climb:
  "prefix ''../'' (js_join ''/'' (replicate k ''..'' @ rest)) \<longleftrightarrow>
     (if k = 0 then prefix ''../'' (js_join ''/'' rest) else 2 \<le> k \<or> rest \<noteq> [])"
proof (cases k)
  case 0
  then show ?thesis by simp
next
  case (Suc j)
  show ?thesis
  proof (cases "replicate j ''..'' @ rest")
    case Nil
    then show ?thesis by (simp add: Suc)
  next
    case (Cons y ys)
    then have "js_join ''/'' (replicate k ''..'' @ rest) = ''..'' @ ''/'' @ js_join ''/'' (y # ys)"
      by (simp add: Suc)
    moreover have "2 \<le> k \<or> rest \<noteq> []" using Cons Suc by (cases j) auto
    ultimately show ?thesis by (simp add: Suc)
  qed
qed

lemma js_join_climb_not_absolute: "0 < k \<Longrightarrow> \<not> path_isAbsolute (js_join ''/'' (replicate k ''..'' @ rest))"
proof (cases k)
  case 0
  assume "0 < k" with 0 show ?thesis by simp
next
  case (Suc j)
  then show ?thesis
    by (cases "replicate j ''..'' @ rest") (simp_all add: path_isAbsolute_def)
qed

text \<open>
  The check in terms of the segments of the two resolved paths: a target is let through
  exactly when the root directory is a prefix of it, or when it is the parent of the root
  directory.
\<close>

lemma containment_characterised:
  assumes "\<not> allowImportingFromOutside opts" and "root \<noteq> []"
  shows "resolve_import e opts root dir target =
     (let fileAbsPath = path_resolve (env_cwd e) [dir, unescape_spaces (replace_rootDir root target)];
          rs = resolve_segs (env_cwd e) [root];
          ts = resolve_segs (env_cwd e) [fileAbsPath]
      in if prefix rs ts \<or> (rs \<noteq> [] \<and> ts = butlast rs) then Inr fileAbsPath
         else Inl (OutsideRoot fileAbsPath root))"
proof -
  define a where "a = path_resolve (env_cwd e) [dir, unescape_spaces (replace_rootDir root target)]"
  define rs where "rs = resolve_segs (env_cwd e) [root]"
  define ts where "ts = resolve_segs (env_cwd e) [a]"
  define n where "n = length (longest_common_prefix rs ts)"
  define rel where "rel = js_join ''/'' (replicate (length rs - n) ''..'' @ drop n ts)"
  have r: "path_relative (env_cwd e) root a = rel"
    by (simp add: path_relative_def Let_def rs_def ts_def n_def rel_def)
  define l where "l = longest_common_prefix rs ts"
  have nl: "n = length l" by (simp add: n_def l_def)
  have "prefix l rs" "prefix l ts"
    by (simp_all add: l_def longest_common_prefix_prefix1 longest_common_prefix_prefix2)
  then obtain zs zt where z: "rs = l @ zs" "ts = l @ zt"
    by (auto simp: prefix_def)
  have n: "n \<le> length rs" "n \<le> length ts" "take n rs = take n ts"
    by (simp_all add: z nl)
  have g: "list_all good_seg (drop n ts)"
    using resolve_segs_good [of "env_cwd e" "[a]"]
    by (auto simp: ts_def list_all_iff dest: in_set_dropD)
  have pre: "prefix rs ts \<longleftrightarrow> length rs = n"
  proof
    assume "prefix rs ts"
    then have "longest_common_prefix rs ts = rs"
      by (metis longest_common_prefix_max_prefix longest_common_prefix_prefix1 prefix_order.eq_iff prefix_order.refl)
    then show "length rs = n" by (simp add: n_def)
  next
    assume "length rs = n"
    with n(3) have "rs = take n ts" by simp
    then show "prefix rs ts" by (metis take_is_prefix)
  qed
  have par: "rs \<noteq> [] \<and> ts = butlast rs \<longleftrightarrow> length rs = Suc n \<and> drop n ts = []"
  proof
    assume h: "rs \<noteq> [] \<and> ts = butlast rs"
    then have "prefix ts rs" by (metis prefixI append_butlast_last_id)
    then have "longest_common_prefix rs ts = ts"
      by (metis longest_common_prefix_max_prefix longest_common_prefix_prefix2 prefix_order.eq_iff prefix_order.refl)
    then have "n = length ts" by (simp add: n_def)
    with h show "length rs = Suc n \<and> drop n ts = []" by simp
  next
    assume h: "length rs = Suc n \<and> drop n ts = []"
    then have "ts = take n ts" using n(2) by simp
    also have "\<dots> = take n rs" using n(3) by simp
    also have "\<dots> = butlast rs" using h by (simp add: butlast_conv_take)
    finally show "rs \<noteq> [] \<and> ts = butlast rs" using h by auto
  qed
  have "prefix ''../'' rel \<or> path_isAbsolute rel \<longleftrightarrow> \<not> (length rs = n \<or> (length rs = Suc n \<and> drop n ts = []))"
  proof (cases "length rs - n = 0")
    case True
    then have "rel = js_join ''/'' (drop n ts)" by (simp add: rel_def)
    with js_join_good_start [OF g] True n(1) show ?thesis by simp
  next
    case False
    then have "\<not> path_isAbsolute rel"
      unfolding rel_def by (intro js_join_climb_not_absolute) simp
    moreover have "prefix ''../'' rel \<longleftrightarrow> 2 \<le> length rs - n \<or> drop n ts \<noteq> []"
      unfolding rel_def using False by (simp only: js_join_climb if_False)
    ultimately show ?thesis using False by auto
  qed
  then have "prefix ''../'' rel \<or> path_isAbsolute rel \<longleftrightarrow> \<not> (prefix rs ts \<or> (rs \<noteq> [] \<and> ts = butlast rs))"
    by (simp only: pre par)
  then show ?thesis
    using assms
    by (simp add: resolve_import_def Let_def r a_def [symmetric] rs_def [symmetric] ts_def [symmetric])
qed

text \<open>
  C2. The check rejects a relative path from the root directory that starts with the
  parent segment followed by a separator. The relative path to the parent of the root
  directory is the parent segment alone, which the check lets through: with the root
  directory \<open>/w/docs\<close>, the target \<open>..\<close> of a document in \<open>/w/docs\<close> resolves to \<open>/w\<close>,
  outside the root directory; the resolution succeeds and the transformation goes on to
  read \<open>/w\<close>.
\<close>

theorem parent_of_root_passes_containment:
  "path_relative ''/w'' ''/w/docs'' ''/w'' = ''..''
   \<and> resolve_import (fixture_env (\<lambda>p. None)) default_options ''/w/docs'' ''/w/docs'' ''..''
       = Inr ''/w''
   \<and> codeImport (fixture_env (\<lambda>p. None)) (default_options\<lparr>rootDir := Some ''/w/docs''\<rparr>)
        \<lparr>dirname = Some ''/w/docs''\<rparr> [code_block ''file=..'']
       = Inl (FileAccess ''/w'')"
  by code_simp

end
